theory Spec2Isabelle
  imports Main "HOL-Library.Word"
begin

section \<open>Python strings\<close>

text \<open>
  A Python \<^verbatim>\<open>str\<close> is a sequence of Unicode code points and \<^verbatim>\<open>len\<close> counts code
  points, so a string is modelled as a list of code points (natural numbers). A literal
  is written \<open>str ''...''\<close>.
\<close>

type_synonym codepoint = nat
type_synonym pystr = "codepoint list"

definition str :: "string \<Rightarrow> pystr" where
  "str s = map of_char s"

definition newline :: codepoint where "newline = 10"
definition space :: codepoint where "space = 32"
definition dot :: codepoint where "dot = 46"

text \<open>
  The characters that \<^verbatim>\<open>str.strip()\<close> removes: the code points for which
  \<^verbatim>\<open>str.isspace()\<close> holds.
\<close>

definition is_space :: "codepoint \<Rightarrow> bool" where
  "is_space c \<longleftrightarrow>
     (9 \<le> c \<and> c \<le> 13) \<or> (28 \<le> c \<and> c \<le> 32) \<or> c = 133 \<or> c = 160 \<or> c = 5760 \<or>
     (8192 \<le> c \<and> c \<le> 8202) \<or> c = 8232 \<or> c = 8233 \<or> c = 8239 \<or> c = 8287 \<or> c = 12288"

text \<open>\<^verbatim>\<open>s.strip()\<close>\<close>

definition strip :: "pystr \<Rightarrow> pystr" where
  "strip s = rev (dropWhile is_space (rev (dropWhile is_space s)))"

text \<open>\<^verbatim>\<open>s.endswith('.')\<close>\<close>

definition endswith_dot :: "pystr \<Rightarrow> bool" where
  "endswith_dot s \<longleftrightarrow> s \<noteq> [] \<and> last s = dot"

text \<open>\<^verbatim>\<open>text.replace('\n', ' ')\<close>\<close>

definition replace_newlines :: "pystr \<Rightarrow> pystr" where
  "replace_newlines text = map (\<lambda>c. if c = newline then space else c) text"

text \<open>
  \<^verbatim>\<open>s.split('. ')\<close>: the occurrences of the separator are found from the left and do
  not overlap; the pieces between them are returned, so the result is never empty. The
  first argument is the piece read so far.
\<close>

fun split_dot_space :: "pystr \<Rightarrow> pystr \<Rightarrow> pystr list" where
  "split_dot_space piece [] = [piece]"
| "split_dot_space piece [c] = [piece @ [c]]"
| "split_dot_space piece (c # d # cs) =
     (if c = dot \<and> d = space then piece # split_dot_space [] cs
      else split_dot_space (piece @ [c]) (d # cs))"

section \<open>The text chunker (text\_to\_speech\_file.py, split\_text)\<close>

text \<open>Line 17: \<^verbatim>\<open>sentences = text.replace('\n', ' ').split('. ')\<close>\<close>

definition sentences :: "pystr \<Rightarrow> pystr list" where
  "sentences text = split_dot_space [] (replace_newlines text)"

text \<open>
  Lines 23 to 25: the sentence is stripped and, when it is not empty and does not end
  with a period, a period is appended.
\<close>

definition normalize_sentence :: "pystr \<Rightarrow> pystr" where
  "normalize_sentence sentence =
     (let s = strip sentence in if s \<noteq> [] \<and> \<not> endswith_dot s then s @ [dot] else s)"

text \<open>
  Lines 21 to 32: the loop over the sentences. The state is the pair of \<^verbatim>\<open>chunks\<close> and
  \<^verbatim>\<open>current_chunk\<close>; \<^verbatim>\<open>max_length\<close> is a Python integer.
\<close>

fun chunk_loop :: "int \<Rightarrow> pystr list \<Rightarrow> pystr list \<times> pystr \<Rightarrow> pystr list \<times> pystr" where
  "chunk_loop max_length [] (chunks, current_chunk) = (chunks, current_chunk)"
| "chunk_loop max_length (sentence # rest) (chunks, current_chunk) =
     (let s = normalize_sentence sentence in
      if int (length current_chunk) + int (length s) + 1 \<le> max_length
      then chunk_loop max_length rest (chunks, current_chunk @ s @ [space])
      else chunk_loop max_length rest
             (if current_chunk \<noteq> [] then chunks @ [strip current_chunk] else chunks,
              s @ [space]))"

text \<open>Lines 12 to 37.\<close>

definition split_text :: "pystr \<Rightarrow> int \<Rightarrow> pystr list" where
  "split_text text max_length =
     (case chunk_loop max_length (sentences text) ([], []) of
        (chunks, current_chunk) \<Rightarrow>
          if current_chunk \<noteq> [] then chunks @ [strip current_chunk] else chunks)"


section \<open>Notions used to state the properties of the chunker\<close>

text \<open>A string without leading or trailing whitespace.\<close>

definition trimmed :: "pystr \<Rightarrow> bool" where
  "trimmed s \<longleftrightarrow> s = [] \<or> (\<not> is_space (hd s) \<and> \<not> is_space (last s))"

text \<open>
  The value of \<^verbatim>\<open>current_chunk\<close> after the sentences of a group were appended to the
  empty string (line 28 and line 32: each sentence is followed by one space), and the
  chunk appended to \<^verbatim>\<open>chunks\<close> for it (lines 31 and 35).
\<close>

definition joined :: "pystr list \<Rightarrow> pystr" where
  "joined g = concat (map (\<lambda>s. s @ [space]) g)"

definition chunk_of :: "pystr list \<Rightarrow> pystr" where
  "chunk_of g = strip (joined g)"

text \<open>
  The loop of \<open>chunk_loop\<close>, read as a grouping of the normalized sentences: the third
  argument is the group of sentences that make up the current chunk.
\<close>

fun group_loop :: "int \<Rightarrow> pystr list \<Rightarrow> pystr list \<Rightarrow> pystr list list" where
  "group_loop m [] g = (if g \<noteq> [] then [g] else [])"
| "group_loop m (s # ss) g =
     (if int (length (joined g)) + int (length s) + 1 \<le> m then group_loop m ss (g @ [s])
      else (if g \<noteq> [] then [g] else []) @ group_loop m ss [s])"

text \<open>
  The greedy algorithm in the words of the specification (section 4.1, items 3 and 4),
  over the normalized sentences: a sentence is appended to the current chunk while
  \<open>current_length + sentence_length + 1 \<le> max_length\<close>; when the next sentence would
  overflow, the current chunk is finalized and a new chunk begins with that sentence; a
  trailing non-empty partial chunk is flushed at the end of the input. An empty current
  chunk is no chunk and is not finalized. The finalization is a parameter: the
  specification trims trailing whitespace (\<open>rstrip\<close>).
\<close>

definition rstrip :: "pystr \<Rightarrow> pystr" where
  "rstrip s = rev (dropWhile is_space (rev s))"

fun greedy_chunks :: "(pystr \<Rightarrow> pystr) \<Rightarrow> int \<Rightarrow> pystr list \<Rightarrow> pystr \<Rightarrow> pystr list" where
  "greedy_chunks finalize m [] current = (if current \<noteq> [] then [finalize current] else [])"
| "greedy_chunks finalize m (s # ss) current =
     (if int (length current) + int (length s) + 1 \<le> m
      then greedy_chunks finalize m ss (current @ s @ [space])
      else (if current \<noteq> [] then [finalize current] else []) @
           greedy_chunks finalize m ss (s @ [space]))"


section \<open>The scripts and their environment\<close>

text \<open>
  The scripts act on the process environment, the file system, standard output and the
  service behind the vendor's client library. A run is modelled by the list of its
  effects, in the order in which the script performs them. Of the lines written to
  standard output only the reports of a failure and of the final success are kept;
  progress lines are left out. The attributes of a response that the service returned
  are read without failure.
\<close>

type_synonym byte = "8 word"

text \<open>
  The exceptions that the handlers of the scripts tell apart. In the client library
  \<^verbatim>\<open>RateLimitError\<close> and \<^verbatim>\<open>AuthenticationError\<close> are subclasses of \<^verbatim>\<open>APIError\<close>; here
  \<open>APIError\<close> stands for the other API errors and \<open>OtherException\<close> for every other
  subclass of \<^verbatim>\<open>Exception\<close>.
\<close>

datatype exn =
    RateLimitError | AuthenticationError | APIError
  | FileNotFoundError | PermissionError | OtherException

text \<open>The calls of the client library, with the arguments that vary.\<close>

datatype request =
    ChatCompletionsCreate pystr pystr
  | EmbeddingsCreate pystr pystr
  | EmbeddingsCreateBatch pystr "pystr list"
  | AudioSpeechCreate pystr pystr pystr
  | FilesCreate pystr
  | FilesRetrieve pystr
  | FineTuningJobsCreate pystr
  | FineTuningJobsList
  | FineTuningJobsRetrieve pystr
  | FineTuningJobsListEvents pystr

text \<open>
  A response, with the attributes on which a script's effects depend:
  \<^verbatim>\<open>response.content\<close> of a speech response, \<^verbatim>\<open>id\<close> and \<^verbatim>\<open>status\<close> of a file object.
\<close>

record response =
  response_content :: "byte list"
  response_id :: pystr
  response_status :: pystr

datatype report =
    MissingApiKey | Usage | CompareUsage | InputFileNotFound pystr | TrainingFileNotFound
  | InvalidVoice pystr | InvalidModel pystr | EmptyInput | FileProcessingFailed
  | Success
  | RateLimitExceeded | AuthenticationFailed | ApiErrorOccurred | FileNotFound
  | PermissionDenied | UnexpectedError

datatype event =
    Print report
  | ClientCreated pystr
  | PathExists pystr
  | OpenRead pystr
  | WriteBytes pystr "byte list"
  | WriteJson pystr
  | Call request
  | Sleep
  | Exit nat

text \<open>
  What a run finds outside the program: \<^verbatim>\<open>os.environ.get("OPENAI_API_KEY")\<close>,
  \<^verbatim>\<open>sys.argv\<close>, \<^verbatim>\<open>os.path.exists\<close>, the result of opening a file and reading it as UTF-8
  text, whether a file can be opened for reading or for writing (the exception raised
  if not), and the answer of the service to the call with a given number, counted from 0,
  in the run.
\<close>

record world =
  api_key :: "pystr option"
  argv :: "pystr list"
  path_exists :: "pystr \<Rightarrow> bool"
  read_text :: "pystr \<Rightarrow> exn + pystr"
  open_read :: "pystr \<Rightarrow> exn option"
  open_write :: "pystr \<Rightarrow> exn option"
  respond :: "nat \<Rightarrow> request \<Rightarrow> exn + response"

text \<open>
  \<^verbatim>\<open>if not api_key\<close> holds when the variable is absent and when it is the empty
  string.
\<close>

definition credential :: "world \<Rightarrow> pystr option" where
  "credential w = (case api_key w of None \<Rightarrow> None | Some k \<Rightarrow> if k = [] then None else Some k)"

text \<open>\<^verbatim>\<open>sys.argv[k] if len(sys.argv) > k else default\<close>\<close>

definition arg_or :: "pystr list \<Rightarrow> nat \<Rightarrow> pystr \<Rightarrow> pystr" where
  "arg_or a k fallback = (if length a > k then a ! k else fallback)"

text \<open>\<^verbatim>\<open>s.endswith(suffix)\<close> and \<^verbatim>\<open>s.endswith((suffix1, suffix2, ...))\<close>\<close>

definition endswith :: "pystr \<Rightarrow> pystr \<Rightarrow> bool" where
  "endswith s suffix \<longleftrightarrow>
     length suffix \<le> length s \<and> drop (length s - length suffix) s = suffix"

definition endswith_any :: "pystr \<Rightarrow> pystr list \<Rightarrow> bool" where
  "endswith_any s suffixes = list_ex (endswith s) suffixes"

text \<open>
  How a \<^verbatim>\<open>try\<close> block ends: it runs to its end, an exception reaches the handlers,
  \<^verbatim>\<open>sys.exit\<close> is called inside it (\<^verbatim>\<open>SystemExit\<close> is no subclass of \<^verbatim>\<open>Exception\<close> and
  passes the handlers), or it is still running when the fuel of a polling loop is used up.
\<close>

datatype ending = Finished | Raised exn | SysExit nat | Running

text \<open>
  The handlers of a script: an exception of a class that has its own \<^verbatim>\<open>except\<close> clause
  gets the report of that clause, any other one the report of \<^verbatim>\<open>except Exception\<close>.
  Every handler ends with \<^verbatim>\<open>sys.exit(1)\<close>. A script whose \<^verbatim>\<open>main\<close> returns exits with
  status 0.
\<close>

fun report_of :: "exn \<Rightarrow> report" where
  "report_of RateLimitError = RateLimitExceeded"
| "report_of AuthenticationError = AuthenticationFailed"
| "report_of APIError = ApiErrorOccurred"
| "report_of FileNotFoundError = FileNotFound"
| "report_of PermissionError = PermissionDenied"
| "report_of OtherException = UnexpectedError"

definition handler :: "exn list \<Rightarrow> exn \<Rightarrow> report" where
  "handler caught e = (if e \<in> set caught then report_of e else UnexpectedError)"

fun finish :: "exn list \<Rightarrow> event list \<times> ending \<Rightarrow> event list" where
  "finish caught (events, Finished) = events @ [Exit 0]"
| "finish caught (events, Raised e) = events @ [Print (handler caught e), Exit 1]"
| "finish caught (events, SysExit n) = events @ [Exit n]"
| "finish caught (events, Running) = events"

subsection \<open>text\_to\_speech\_file.py\<close>

definition valid_voices :: "pystr list" where
  "valid_voices = map str [''alloy'', ''echo'', ''fable'', ''onyx'', ''nova'', ''shimmer'']"

definition valid_models :: "pystr list" where
  "valid_models = map str [''tts-1'', ''tts-1-hd'']"

definition audio_extensions :: "pystr list" where
  "audio_extensions = map str [''.mp3'', ''.opus'', ''.aac'', ''.flac'']"

text \<open>
  Lines 126 to 139: one call per chunk, in the order of the list; the content of each
  response is appended to \<^verbatim>\<open>audio_data\<close>. An exception of a call leaves the loop. The
  third argument is the number of calls made before.
\<close>

fun synthesize_chunks ::
  "world \<Rightarrow> pystr \<Rightarrow> pystr \<Rightarrow> nat \<Rightarrow> pystr list \<Rightarrow> byte list \<Rightarrow> event list \<times> (exn + byte list)"
where
  "synthesize_chunks w model voice i [] audio_data = ([], Inr audio_data)"
| "synthesize_chunks w model voice i (chunk # rest) audio_data =
     (case respond w i (AudioSpeechCreate model voice chunk) of
        Inl e \<Rightarrow> ([Call (AudioSpeechCreate model voice chunk)], Inl e)
      | Inr response \<Rightarrow>
          (case synthesize_chunks w model voice (Suc i) rest
                  (audio_data @ response_content response) of
             (events, result) \<Rightarrow> (Call (AudioSpeechCreate model voice chunk) # events, result)))"

text \<open>Lines 126 to 144: the loop, then the output file is opened and written once.\<close>

definition synthesize_and_save ::
  "world \<Rightarrow> pystr \<Rightarrow> pystr \<Rightarrow> pystr \<Rightarrow> pystr list \<Rightarrow> event list \<times> ending"
where
  "synthesize_and_save w model voice output_file chunks =
     (case synthesize_chunks w model voice 0 chunks [] of
        (events, Inl e) \<Rightarrow> (events, Raised e)
      | (events, Inr audio_data) \<Rightarrow>
          (case open_write w output_file of
             Some e \<Rightarrow> (events, Raised e)
           | None \<Rightarrow> (events @ [WriteBytes output_file audio_data], Finished)))"

text \<open>Lines 98 to 163: the body of the \<^verbatim>\<open>try\<close> block.\<close>

definition text_to_speech_file_body ::
  "world \<Rightarrow> pystr \<Rightarrow> pystr \<Rightarrow> pystr \<Rightarrow> pystr \<Rightarrow> event list \<times> ending"
where
  "text_to_speech_file_body w input_file output_file voice model =
     (case read_text w input_file of
        Inl e \<Rightarrow> ([OpenRead input_file], Raised e)
      | Inr contents \<Rightarrow>
          (let text = strip contents in
           if text = [] then ([OpenRead input_file, Print EmptyInput], SysExit 1)
           else
             (case synthesize_and_save w model voice output_file (split_text text 4096) of
                (events, Finished) \<Rightarrow> (OpenRead input_file # events @ [Print Success], Finished)
              | (events, ending) \<Rightarrow> (OpenRead input_file # events, ending))))"

text \<open>Lines 97 to 198: the \<^verbatim>\<open>try\<close> statement with its handlers.\<close>

definition text_to_speech_file_caught :: "exn list" where
  "text_to_speech_file_caught =
     [RateLimitError, AuthenticationError, APIError, FileNotFoundError, PermissionError]"

definition text_to_speech_file_try ::
  "world \<Rightarrow> pystr \<Rightarrow> pystr \<Rightarrow> pystr \<Rightarrow> pystr \<Rightarrow> event list"
where
  "text_to_speech_file_try w input_file output_file voice model =
     finish text_to_speech_file_caught
       (text_to_speech_file_body w input_file output_file voice model)"

text \<open>Lines 39 to 198.\<close>

definition text_to_speech_file_main :: "world \<Rightarrow> event list" where
  "text_to_speech_file_main w =
     (case credential w of
        None \<Rightarrow> [Print MissingApiKey, Exit 1]
      | Some key \<Rightarrow>
          ClientCreated key #
          (if length (argv w) < 2 then [Print Usage, Exit 1]
           else
             (let input_file = argv w ! 1;
                  output_file = arg_or (argv w) 2 (str ''speech_output.mp3'');
                  voice = arg_or (argv w) 3 (str ''alloy'');
                  model = arg_or (argv w) 4 (str ''tts-1'')
              in
                if \<not> path_exists w input_file
                then [PathExists input_file, Print (InputFileNotFound input_file), Exit 1]
                else PathExists input_file #
                  (if voice \<notin> set valid_voices then [Print (InvalidVoice voice), Exit 1]
                   else if model \<notin> set valid_models then [Print (InvalidModel model), Exit 1]
                   else
                     text_to_speech_file_try w input_file
                       (if \<not> endswith_any output_file audio_extensions
                        then output_file @ str ''.mp3'' else output_file)
                       voice model))))"

text \<open>
  The inputs of the speech calls of a run, and the files after a run: a \<open>WriteBytes\<close>
  creates or replaces the file.
\<close>

fun submitted :: "event list \<Rightarrow> pystr list" where
  "submitted [] = []"
| "submitted (Call (AudioSpeechCreate model voice chunk) # events) = chunk # submitted events"
| "submitted (_ # events) = submitted events"

fun files_after :: "(pystr \<rightharpoonup> byte list) \<Rightarrow> event list \<Rightarrow> (pystr \<rightharpoonup> byte list)" where
  "files_after files [] = files"
| "files_after files (WriteBytes path bytes # events) = files_after (files(path \<mapsto> bytes)) events"
| "files_after files (_ # events) = files_after files events"

subsection \<open>text\_to\_speech.py\<close>

text \<open>
  Lines 66 to 131: one speech call; \<^verbatim>\<open>response.stream_to_file\<close> writes the content of
  the response to the output file.
\<close>

definition text_to_speech_body ::
  "world \<Rightarrow> pystr \<Rightarrow> pystr \<Rightarrow> pystr \<Rightarrow> pystr \<Rightarrow> event list \<times> ending"
where
  "text_to_speech_body w text output_file voice model =
     (case respond w 0 (AudioSpeechCreate model voice text) of
        Inl e \<Rightarrow> ([Call (AudioSpeechCreate model voice text)], Raised e)
      | Inr response \<Rightarrow>
          (case open_write w output_file of
             Some e \<Rightarrow> ([Call (AudioSpeechCreate model voice text)], Raised e)
           | None \<Rightarrow>
               ([Call (AudioSpeechCreate model voice text),
                 WriteBytes output_file (response_content response), Print Success],
                Finished)))"

definition text_to_speech_main :: "world \<Rightarrow> event list" where
  "text_to_speech_main w =
     (case credential w of
        None \<Rightarrow> [Print MissingApiKey, Exit 1]
      | Some key \<Rightarrow>
          ClientCreated key #
          (if length (argv w) < 2 then [Print Usage, Exit 1]
           else
             (let text = argv w ! 1;
                  output_file = arg_or (argv w) 2 (str ''speech.mp3'');
                  voice = arg_or (argv w) 3 (str ''alloy'');
                  model = arg_or (argv w) 4 (str ''tts-1'')
              in
                if voice \<notin> set valid_voices then [Print (InvalidVoice voice), Exit 1]
                else if model \<notin> set valid_models then [Print (InvalidModel model), Exit 1]
                else
                  finish [RateLimitError, AuthenticationError, APIError, PermissionError]
                    (text_to_speech_body w text
                       (if \<not> endswith_any output_file audio_extensions
                        then output_file @ str ''.mp3'' else output_file)
                       voice model))))"

subsection \<open>chat\_gpt.py\<close>

definition chat_gpt_main :: "world \<Rightarrow> event list" where
  "chat_gpt_main w =
     (case credential w of
        None \<Rightarrow> [Print MissingApiKey, Exit 1]
      | Some key \<Rightarrow>
          ClientCreated key #
          (let request = ChatCompletionsCreate (str ''ft:gpt-3.5-turbo-0125:born2rule::CSC05TYi'')
                 (str ''can u give the model id that u are using ? ai model'')
           in
             finish [RateLimitError, AuthenticationError, APIError]
               (case respond w 0 request of
                  Inl e \<Rightarrow> ([Call request], Raised e)
                | Inr response \<Rightarrow> ([Call request, Print Success], Finished))))"

subsection \<open>use\_fine\_tuned\_model.py\<close>

text \<open>\<^verbatim>\<open>" ".join(words)\<close>\<close>

fun join_spaces :: "pystr list \<Rightarrow> pystr" where
  "join_spaces [] = []"
| "join_spaces [x] = x"
| "join_spaces (x # y # zs) = x @ [space] @ join_spaces (y # zs)"

definition use_fine_tuned_model_main :: "world \<Rightarrow> event list" where
  "use_fine_tuned_model_main w =
     (case credential w of
        None \<Rightarrow> [Print MissingApiKey, Exit 1]
      | Some key \<Rightarrow>
          (if length (argv w) < 2 then [Print Usage, Exit 1]
           else
             (let fine_tuned_model = argv w ! 1;
                  user_message =
                    (if length (argv w) \<ge> 3 then join_spaces (drop 2 (argv w))
                     else str ''What are your business hours?'');
                  request = ChatCompletionsCreate fine_tuned_model user_message
              in
                ClientCreated key #
                finish [RateLimitError, AuthenticationError, APIError]
                  (case respond w 0 request of
                     Inl e \<Rightarrow> ([Call request], Raised e)
                   | Inr response \<Rightarrow> ([Call request, Print Success], Finished)))))"

subsection \<open>check\_fine\_tune\_status.py\<close>

text \<open>
  The only handler is \<^verbatim>\<open>except Exception\<close>. With \<^verbatim>\<open>--list\<close> the jobs are listed;
  otherwise the job is retrieved and then its events are listed.
\<close>

definition check_fine_tune_status_body :: "world \<Rightarrow> event list \<times> ending" where
  "check_fine_tune_status_body w =
     (if argv w ! 1 = str ''--list''
      then
        (case respond w 0 FineTuningJobsList of
           Inl e \<Rightarrow> ([Call FineTuningJobsList], Raised e)
         | Inr jobs \<Rightarrow> ([Call FineTuningJobsList, Print Success], Finished))
      else
        (let job_id = argv w ! 1 in
           case respond w 0 (FineTuningJobsRetrieve job_id) of
             Inl e \<Rightarrow> ([Call (FineTuningJobsRetrieve job_id)], Raised e)
           | Inr job \<Rightarrow>
               (case respond w 1 (FineTuningJobsListEvents job_id) of
                  Inl e \<Rightarrow>
                    ([Call (FineTuningJobsRetrieve job_id),
                      Call (FineTuningJobsListEvents job_id)], Raised e)
                | Inr events \<Rightarrow>
                    ([Call (FineTuningJobsRetrieve job_id),
                      Call (FineTuningJobsListEvents job_id), Print Success], Finished))))"

definition check_fine_tune_status_main :: "world \<Rightarrow> event list" where
  "check_fine_tune_status_main w =
     (case credential w of
        None \<Rightarrow> [Print MissingApiKey, Exit 1]
      | Some key \<Rightarrow>
          (if length (argv w) < 2 then [Print Usage, Exit 1]
           else ClientCreated key # finish [] (check_fine_tune_status_body w)))"

subsection \<open>fine\_tune.py\<close>

text \<open>
  Lines 56 to 66: the file's status is polled until it is \<^verbatim>\<open>processed\<close> or \<^verbatim>\<open>error\<close>,
  with two seconds of sleep between two polls. The loop has no bound: the model runs it
  on fuel, and a run that uses up its fuel is still running. The third argument is the
  number of calls made before; the result holds the number of calls made after the loop.
\<close>

fun poll_file_status :: "world \<Rightarrow> pystr \<Rightarrow> nat \<Rightarrow> nat \<Rightarrow> event list \<times> (ending + nat)" where
  "poll_file_status w file_id i 0 = ([], Inl Running)"
| "poll_file_status w file_id i (Suc fuel) =
     (case respond w i (FilesRetrieve file_id) of
        Inl e \<Rightarrow> ([Call (FilesRetrieve file_id)], Inl (Raised e))
      | Inr file_info \<Rightarrow>
          if response_status file_info = str ''processed''
          then ([Call (FilesRetrieve file_id)], Inr (Suc i))
          else if response_status file_info = str ''error''
          then ([Call (FilesRetrieve file_id), Print FileProcessingFailed], Inl (SysExit 1))
          else
            (case poll_file_status w file_id (Suc i) fuel of
               (events, result) \<Rightarrow> (Call (FilesRetrieve file_id) # Sleep # events, result)))"

text \<open>Lines 36 to 101: upload, polling, creation of the job.\<close>

definition fine_tune_body :: "world \<Rightarrow> nat \<Rightarrow> pystr \<Rightarrow> event list \<times> ending" where
  "fine_tune_body w fuel training_file_path =
     (case open_read w training_file_path of
        Some e \<Rightarrow> ([OpenRead training_file_path], Raised e)
      | None \<Rightarrow>
          (case respond w 0 (FilesCreate training_file_path) of
             Inl e \<Rightarrow> ([OpenRead training_file_path, Call (FilesCreate training_file_path)], Raised e)
           | Inr training_file \<Rightarrow>
               (case poll_file_status w (response_id training_file) 1 fuel of
                  (events, Inl ending) \<Rightarrow>
                    (OpenRead training_file_path # Call (FilesCreate training_file_path) # events,
                     ending)
                | (events, Inr i) \<Rightarrow>
                    (case respond w i (FineTuningJobsCreate (response_id training_file)) of
                       Inl e \<Rightarrow>
                         (OpenRead training_file_path # Call (FilesCreate training_file_path) #
                          events @ [Call (FineTuningJobsCreate (response_id training_file))],
                          Raised e)
                     | Inr job \<Rightarrow>
                         (OpenRead training_file_path # Call (FilesCreate training_file_path) #
                          events @
                          [Call (FineTuningJobsCreate (response_id training_file)), Print Success],
                          Finished)))))"

definition fine_tune_main :: "nat \<Rightarrow> world \<Rightarrow> event list" where
  "fine_tune_main fuel w =
     (case credential w of
        None \<Rightarrow> [Print MissingApiKey, Exit 1]
      | Some key \<Rightarrow>
          ClientCreated key #
          (let training_file_path = str ''training_data.jsonl'' in
             if \<not> path_exists w training_file_path
             then [PathExists training_file_path, Print TrainingFileNotFound, Exit 1]
             else PathExists training_file_path #
               finish [RateLimitError, AuthenticationError, FileNotFoundError, APIError]
                 (fine_tune_body w fuel training_file_path)))"

subsection \<open>text\_embeddings.py\<close>

definition valid_embedding_models :: "pystr list" where
  "valid_embedding_models =
     map str [''text-embedding-3-small'', ''text-embedding-3-large'', ''text-embedding-ada-002'']"

text \<open>
  Lines 68 to 72: the argument after the first \<^verbatim>\<open>--save\<close>, if there is one.
  \<^verbatim>\<open>sys.argv.index\<close> gives the first position.
\<close>

definition save_option :: "pystr list \<Rightarrow> pystr option" where
  "save_option a =
     (if str ''--save'' \<in> set a
      then (let save_index = length (takeWhile (\<lambda>x. x \<noteq> str ''--save'') a) in
              if save_index + 1 < length a then Some (a ! (save_index + 1)) else None)
      else None)"

text \<open>
  Lines 81 to 191: in comparison mode two embedding calls; otherwise one call, and the
  embedding is saved as JSON when a non-empty file name follows \<^verbatim>\<open>--save\<close>.
\<close>

definition text_embeddings_body ::
  "world \<Rightarrow> bool \<Rightarrow> pystr \<Rightarrow> pystr \<Rightarrow> pystr \<Rightarrow> pystr option \<Rightarrow> event list \<times> ending"
where
  "text_embeddings_body w compare_mode text1 text2 model save_file =
     (if compare_mode
      then
        (case respond w 0 (EmbeddingsCreate model text1) of
           Inl e \<Rightarrow> ([Call (EmbeddingsCreate model text1)], Raised e)
         | Inr response1 \<Rightarrow>
             (case respond w 1 (EmbeddingsCreate model text2) of
                Inl e \<Rightarrow>
                  ([Call (EmbeddingsCreate model text1), Call (EmbeddingsCreate model text2)],
                   Raised e)
              | Inr response2 \<Rightarrow>
                  ([Call (EmbeddingsCreate model text1), Call (EmbeddingsCreate model text2),
                    Print Success], Finished)))
      else
        (case respond w 0 (EmbeddingsCreate model text1) of
           Inl e \<Rightarrow> ([Call (EmbeddingsCreate model text1)], Raised e)
         | Inr response \<Rightarrow>
             (case save_file of
                None \<Rightarrow> ([Call (EmbeddingsCreate model text1), Print Success], Finished)
              | Some path \<Rightarrow>
                  if path = [] then ([Call (EmbeddingsCreate model text1), Print Success], Finished)
                  else
                    (case open_write w path of
                       Some e \<Rightarrow> ([Call (EmbeddingsCreate model text1)], Raised e)
                     | None \<Rightarrow>
                         ([Call (EmbeddingsCreate model text1), WriteJson path, Print Success],
                          Finished)))))"

definition text_embeddings_main :: "world \<Rightarrow> event list" where
  "text_embeddings_main w =
     (case credential w of
        None \<Rightarrow> [Print MissingApiKey, Exit 1]
      | Some key \<Rightarrow>
          ClientCreated key #
          (let a = argv w in
             if length a < 2 then [Print Usage, Exit 1]
             else if a ! 1 = str ''--compare'' \<and> length a < 4 then [Print CompareUsage, Exit 1]
             else
               (let compare_mode = (a ! 1 = str ''--compare'');
                    text1 = (if compare_mode then a ! 2 else a ! 1);
                    text2 = (if compare_mode then a ! 3 else []);
                    model =
                      (if compare_mode then arg_or a 4 (str ''text-embedding-3-small'')
                       else arg_or a 2 (str ''text-embedding-3-small''))
                in
                  if model \<notin> set valid_embedding_models then [Print (InvalidModel model), Exit 1]
                  else
                    finish [RateLimitError, AuthenticationError, APIError]
                      (text_embeddings_body w compare_mode text1 text2 model (save_option a)))))"

subsection \<open>batch\_embeddings.py\<close>

text \<open>
  Line 63: the stripped lines of the file that are not empty. The first argument of
  \<open>split_lines\<close> is the line read so far.
\<close>

fun split_lines :: "pystr \<Rightarrow> pystr \<Rightarrow> pystr list" where
  "split_lines line [] = [line]"
| "split_lines line (c # cs) =
     (if c = newline then line # split_lines [] cs else split_lines (line @ [c]) cs)"

definition nonempty_lines :: "pystr \<Rightarrow> pystr list" where
  "nonempty_lines contents = filter (\<lambda>line. line \<noteq> []) (map strip (split_lines [] contents))"

text \<open>Lines 78 and 79: \<^verbatim>\<open>texts[i:i + 100]\<close> for \<^verbatim>\<open>i\<close> in \<^verbatim>\<open>range(0, len(texts), 100)\<close>.\<close>

function batches :: "pystr list \<Rightarrow> pystr list list" where
  "batches texts = (if texts = [] then [] else take 100 texts # batches (drop 100 texts))"
  by pat_completeness auto
termination
  by (relation "measure length") auto

text \<open>Lines 78 to 94: one call per batch.\<close>

fun embed_batches :: "world \<Rightarrow> pystr \<Rightarrow> nat \<Rightarrow> pystr list list \<Rightarrow> event list \<times> exn option" where
  "embed_batches w model i [] = ([], None)"
| "embed_batches w model i (batch # rest) =
     (case respond w i (EmbeddingsCreateBatch model batch) of
        Inl e \<Rightarrow> ([Call (EmbeddingsCreateBatch model batch)], Some e)
      | Inr response \<Rightarrow>
          (case embed_batches w model (Suc i) rest of
             (events, result) \<Rightarrow> (Call (EmbeddingsCreateBatch model batch) # events, result)))"

text \<open>Lines 55 to 127.\<close>

definition batch_embeddings_body :: "world \<Rightarrow> pystr \<Rightarrow> pystr \<Rightarrow> pystr \<Rightarrow> event list \<times> ending" where
  "batch_embeddings_body w input_file output_file model =
     (case read_text w input_file of
        Inl e \<Rightarrow> ([OpenRead input_file], Raised e)
      | Inr contents \<Rightarrow>
          (let texts = nonempty_lines contents in
           if texts = [] then ([OpenRead input_file, Print EmptyInput], SysExit 1)
           else
             (case embed_batches w model 0 (batches texts) of
                (events, Some e) \<Rightarrow> (OpenRead input_file # events, Raised e)
              | (events, None) \<Rightarrow>
                  (case open_write w output_file of
                     Some e \<Rightarrow> (OpenRead input_file # events, Raised e)
                   | None \<Rightarrow>
                       (OpenRead input_file # events @ [WriteJson output_file, Print Success],
                        Finished)))))"

definition batch_embeddings_main :: "world \<Rightarrow> event list" where
  "batch_embeddings_main w =
     (case credential w of
        None \<Rightarrow> [Print MissingApiKey, Exit 1]
      | Some key \<Rightarrow>
          (if length (argv w) < 2 then [Print Usage, Exit 1]
           else
             (let input_file = argv w ! 1;
                  output_file = arg_or (argv w) 2 (str ''embeddings.json'');
                  model = arg_or (argv w) 3 (str ''text-embedding-3-small'')
              in
                if \<not> path_exists w input_file
                then [PathExists input_file, Print (InputFileNotFound input_file), Exit 1]
                else PathExists input_file #
                  (if model \<notin> set valid_embedding_models
                   then [Print (InvalidModel model), Exit 1]
                   else
                     ClientCreated key #
                     finish [RateLimitError, AuthenticationError, APIError]
                       (batch_embeddings_body w input_file output_file model)))))"

subsection \<open>All scripts\<close>

datatype script =
    BatchEmbeddings | ChatGpt | CheckFineTuneStatus | FineTune
  | TextEmbeddings | TextToSpeech | TextToSpeechFile | UseFineTunedModel

text \<open>The run of a script; the fuel bounds the polling loop of fine\_tune.py.\<close>

fun run :: "script \<Rightarrow> nat \<Rightarrow> world \<Rightarrow> event list" where
  "run BatchEmbeddings fuel w = batch_embeddings_main w"
| "run ChatGpt fuel w = chat_gpt_main w"
| "run CheckFineTuneStatus fuel w = check_fine_tune_status_main w"
| "run FineTune fuel w = fine_tune_main fuel w"
| "run TextEmbeddings fuel w = text_embeddings_main w"
| "run TextToSpeech fuel w = text_to_speech_main w"
| "run TextToSpeechFile fuel w = text_to_speech_file_main w"
| "run UseFineTunedModel fuel w = use_fine_tuned_model_main w"

text \<open>The calls of the service in a run.\<close>

fun calls :: "event list \<Rightarrow> request list" where
  "calls [] = []"
| "calls (Call request # events) = request # calls events"
| "calls (_ # events) = calls events"

subsection \<open>Sample environments\<close>

text \<open>
  A service that answers the call with number \<open>i\<close> with the one byte \<open>i\<close>, a service
  that raises an exception at one call instead, and a world in which the arguments name the input file
  \<open>in.txt\<close>, the file holds the given text and every file can be written.
\<close>

definition sample_response :: "nat \<Rightarrow> response" where
  "sample_response i =
     \<lparr>response_content = [of_nat i], response_id = str ''file-1'',
      response_status = str ''processed''\<rparr>"

definition sample_service :: "nat \<Rightarrow> request \<Rightarrow> exn + response" where
  "sample_service i request = Inr (sample_response i)"

definition failing_service :: "nat \<Rightarrow> exn \<Rightarrow> nat \<Rightarrow> request \<Rightarrow> exn + response" where
  "failing_service k e i request = (if i = k then Inl e else sample_service i request)"

definition sample_world ::
  "pystr option \<Rightarrow> pystr \<Rightarrow> (nat \<Rightarrow> request \<Rightarrow> exn + response) \<Rightarrow> world"
where
  "sample_world key contents service =
     \<lparr>api_key = key,
      argv = [str ''script.py'', str ''in.txt''],
      path_exists = (\<lambda>path. path = str ''in.txt''),
      read_text = (\<lambda>path. if path = str ''in.txt'' then Inr contents else Inl FileNotFoundError),
      open_read = (\<lambda>path. if path = str ''in.txt'' then None else Some FileNotFoundError),
      open_write = (\<lambda>path. None),
      respond = service\<rparr>"

section \<open>Properties of the string operations and of the chunking loop\<close>

lemma dot_not_space: "\<not> is_space dot"
  by (simp add: is_space_def dot_def)

lemma space_is_space: "is_space space"
  by (simp add: is_space_def space_def)

lemma newline_is_space: "is_space newline"
  by (simp add: is_space_def newline_def)

lemma last_dropWhile_eq: "dropWhile P xs \<noteq> [] \<Longrightarrow> last (dropWhile P xs) = last xs"
  by (induction xs) (auto split: if_splits)

lemma trimmed_strip: "trimmed (strip s)"
proof (cases "strip s = []")
  case True
  then show ?thesis by (simp add: trimmed_def)
next
  case False
  let ?zs = "dropWhile is_space s"
  let ?ys = "dropWhile is_space (rev ?zs)"
  from False have ys: "?ys \<noteq> []" by (simp add: strip_def)
  have zs: "?zs \<noteq> []"
  proof
    assume "?zs = []"
    then have "rev ?zs = []" by (simp only: rev.simps)
    then have "?ys = []" by (simp only: dropWhile.simps)
    with ys show False by blast
  qed
  have "last (strip s) = hd ?ys" using ys by (simp add: strip_def last_rev)
  moreover have "\<not> is_space (hd ?ys)" using ys by (rule hd_dropWhile)
  moreover have "hd (strip s) = last ?ys" using ys by (simp add: strip_def hd_rev)
  moreover have "last ?ys = last (rev ?zs)" using ys by (rule last_dropWhile_eq)
  moreover have "last (rev ?zs) = hd ?zs" using zs by (simp add: last_rev)
  moreover have "\<not> is_space (hd ?zs)" using zs by (rule hd_dropWhile)
  ultimately show ?thesis by (simp add: trimmed_def)
qed

lemma dropWhile_id: "xs = [] \<or> \<not> P (hd xs) \<Longrightarrow> dropWhile P xs = xs"
  by (cases xs) auto

lemma strip_trimmed: "trimmed s \<Longrightarrow> strip s = s"
proof (cases "s = []")
  case True
  then show ?thesis by (simp add: strip_def)
next
  case False
  assume "trimmed s"
  with False have h: "\<not> is_space (hd s)" and l: "\<not> is_space (last s)"
    by (simp_all add: trimmed_def)
  have "dropWhile is_space s = s" using h by (simp add: dropWhile_id)
  moreover have "dropWhile is_space (rev s) = rev s"
    using l False by (simp add: dropWhile_id hd_rev)
  ultimately show ?thesis by (simp add: strip_def)
qed

lemma strip_trimmed_space: "trimmed s \<Longrightarrow> strip (s @ [space]) = s"
proof (cases "s = []")
  case True
  then show ?thesis by (simp add: strip_def space_is_space)
next
  case False
  assume "trimmed s"
  with False have h: "\<not> is_space (hd s)" and l: "\<not> is_space (last s)"
    by (simp_all add: trimmed_def)
  have "dropWhile is_space (s @ [space]) = s @ [space]"
    using h False by (simp add: dropWhile_id)
  moreover have "dropWhile is_space (rev s) = rev s"
    using l False by (simp add: dropWhile_id hd_rev)
  ultimately show ?thesis by (simp add: strip_def space_is_space)
qed

lemma length_strip_le: "length (strip s) \<le> length s"
proof -
  have "length (strip s) \<le> length (dropWhile is_space s)"
    unfolding strip_def using length_dropWhile_le [of is_space "rev (dropWhile is_space s)"] by simp
  also have "\<dots> \<le> length s" by (rule length_dropWhile_le)
  finally show ?thesis .
qed

lemma strip_snoc_space: "is_space x \<Longrightarrow> strip (c @ [x]) = strip c"
proof (cases "\<forall>y\<in>set c. is_space y")
  case True
  assume "is_space x"
  with True have "\<forall>y\<in>set (c @ [x]). is_space y" by simp
  then have "dropWhile is_space (c @ [x]) = []"
    by (simp only: dropWhile_eq_Nil_conv)
  moreover from True have "dropWhile is_space c = []"
    by (simp only: dropWhile_eq_Nil_conv)
  ultimately show ?thesis by (simp only: strip_def)
next
  case False
  assume x: "is_space x"
  from False obtain y where "y \<in> set c" and "\<not> is_space y" by blast
  then have "dropWhile is_space (c @ [x]) = dropWhile is_space c @ [x]"
    by (rule dropWhile_append1)
  then show ?thesis using x by (simp add: strip_def)
qed

lemma filter_dropWhile: "filter (\<lambda>c. \<not> P c \<and> Q c) (dropWhile P xs) = filter (\<lambda>c. \<not> P c \<and> Q c) xs"
  by (induction xs) auto

lemma filter_strip: "filter (\<lambda>c. \<not> is_space c \<and> Q c) (strip s) = filter (\<lambda>c. \<not> is_space c \<and> Q c) s"
  by (simp add: strip_def filter_dropWhile flip: rev_filter)

lemma trimmed_normalize_sentence: "trimmed (normalize_sentence s)"
  using trimmed_strip [of s]
  by (auto simp: normalize_sentence_def Let_def trimmed_def dot_not_space)

lemma last_normalize_sentence: "normalize_sentence s \<noteq> [] \<Longrightarrow> last (normalize_sentence s) = dot"
  by (auto simp: normalize_sentence_def Let_def endswith_dot_def split: if_splits)

lemma joined_Nil_iff: "joined g = [] \<longleftrightarrow> g = []"
  by (cases g) (simp_all add: joined_def)

lemma joined_snoc: "joined (g @ [s]) = joined g @ s @ [space]"
  by (simp add: joined_def)

lemma joined_single: "joined [s] = s @ [space]"
  by (simp add: joined_def)

lemma chunk_loop_groups:
  "(case chunk_loop m ss (chunks, joined g) of
      (c, k) \<Rightarrow> if k \<noteq> [] then c @ [strip k] else c) =
   chunks @ map chunk_of (group_loop m (map normalize_sentence ss) g)"
proof (induction ss arbitrary: chunks g)
  case Nil
  then show ?case by (simp add: joined_Nil_iff chunk_of_def)
next
  case (Cons x ss)
  let ?s = "normalize_sentence x"
  show ?case
  proof (cases "int (length (joined g)) + int (length ?s) + 1 \<le> m")
    case True
    then show ?thesis
      using Cons.IH [of chunks "g @ [?s]"] by (simp add: joined_snoc)
  next
    case False
    then show ?thesis
      using Cons.IH [of "if g \<noteq> [] then chunks @ [strip (joined g)] else chunks" "[?s]"]
      by (simp add: joined_single joined_Nil_iff chunk_of_def)
  qed
qed

lemma split_text_groups:
  "split_text text m = map chunk_of (group_loop m (map normalize_sentence (sentences text)) [])"
  using chunk_loop_groups [of m "sentences text" "[]" "[]"]
  by (simp add: split_text_def joined_def)

lemma chunk_loop_greedy:
  "(case chunk_loop m ss (chunks, current) of
      (c, k) \<Rightarrow> if k \<noteq> [] then c @ [strip k] else c) =
   chunks @ greedy_chunks strip m (map normalize_sentence ss) current"
  by (induction ss arbitrary: chunks current) (simp_all add: Let_def)

lemma concat_group_loop: "concat (group_loop m ss g) = g @ ss"
  by (induction ss arbitrary: g) simp_all

lemma group_loop_nonempty: "[] \<notin> set (group_loop m ss g)"
  by (induction ss arbitrary: g) simp_all

lemma group_loop_bound:
  "g = [] \<or> int (length (joined g)) \<le> m \<or> (\<exists>s. g = [s]) \<Longrightarrow>
   g' \<in> set (group_loop m ss g) \<Longrightarrow>
   int (length (joined g')) \<le> m \<or> (\<exists>s. g' = [s])"
proof (induction ss arbitrary: g)
  case Nil
  then show ?case by (auto split: if_splits)
next
  case (Cons s ss)
  show ?case
  proof (cases "int (length (joined g)) + int (length s) + 1 \<le> m")
    case True
    then have "int (length (joined (g @ [s]))) \<le> m" by (simp add: joined_snoc)
    moreover from True Cons.prems(2) have "g' \<in> set (group_loop m ss (g @ [s]))" by simp
    ultimately show ?thesis using Cons.IH [of "g @ [s]"] by blast
  next
    case False
    with Cons.prems(2) have "g' = g \<and> g \<noteq> [] \<or> g' \<in> set (group_loop m ss [s])"
      by (auto split: if_splits)
    then show ?thesis
    proof
      assume "g' = g \<and> g \<noteq> []"
      with Cons.prems(1) show ?thesis by blast
    next
      assume "g' \<in> set (group_loop m ss [s])"
      then show ?thesis using Cons.IH [of "[s]"] by blast
    qed
  qed
qed

lemma dropWhile_keep_middle:
  assumes "s \<noteq> []" and "\<not> P (hd s)"
  shows "dropWhile P (a @ s @ b) = dropWhile P a @ s @ b"
proof (cases "\<forall>x\<in>set a. P x")
  case True
  then have "dropWhile P (a @ s @ b) = dropWhile P (s @ b)"
    by (simp add: dropWhile_append2)
  moreover have "dropWhile P (s @ b) = s @ b"
    using assms by (cases s) simp_all
  moreover from True have "dropWhile P a = []"
    by (simp only: dropWhile_eq_Nil_conv)
  ultimately show ?thesis by (simp only: append_Nil)
next
  case False
  then obtain y where "y \<in> set a" and "\<not> P y" by blast
  then show ?thesis by (rule dropWhile_append1)
qed

lemma strip_keep_middle:
  assumes "s \<noteq> []" and "trimmed s"
  shows "strip (a @ s @ b) = dropWhile is_space a @ s @ rev (dropWhile is_space (rev b))"
proof -
  from assms have h: "\<not> is_space (hd s)" and l: "\<not> is_space (last s)"
    by (simp_all add: trimmed_def)
  have 1: "dropWhile is_space (a @ s @ b) = dropWhile is_space a @ s @ b"
    using assms(1) h by (rule dropWhile_keep_middle)
  have "rev s \<noteq> []" and "\<not> is_space (hd (rev s))"
    using assms(1) l by (simp_all add: hd_rev)
  then have 2: "dropWhile is_space (rev b @ rev s @ rev (dropWhile is_space a)) =
      dropWhile is_space (rev b) @ rev s @ rev (dropWhile is_space a)"
    by (rule dropWhile_keep_middle)
  show ?thesis unfolding strip_def 1 using 2 by simp
qed

lemma chunk_of_single: "trimmed s \<Longrightarrow> chunk_of [s] = s"
  by (simp add: chunk_of_def joined_single strip_trimmed_space)

lemma chunk_of_contains:
  assumes "s \<in> set g" and "trimmed s"
  shows "\<exists>pre post. chunk_of g = pre @ s @ post"
proof (cases "s = []")
  case True
  then have "chunk_of g = chunk_of g @ s @ []" by simp
  then show ?thesis by blast
next
  case False
  from assms(1) obtain g1 g2 where "g = g1 @ s # g2" by (auto simp: in_set_conv_decomp)
  then have "joined g = joined g1 @ s @ (space # joined g2)" by (simp add: joined_def)
  then have "chunk_of g = dropWhile is_space (joined g1) @ s @
      rev (dropWhile is_space (rev (space # joined g2)))"
    using strip_keep_middle [OF False assms(2)] by (simp add: chunk_of_def)
  then show ?thesis by blast
qed

lemma chunk_of_ends_with_dot:
  assumes "\<forall>s\<in>set g. trimmed s \<and> (s \<noteq> [] \<longrightarrow> last s = dot)"
  shows "chunk_of g = [] \<or> last (chunk_of g) = dot"
  using assms
proof (induction g rule: rev_induct)
  case Nil
  then show ?case by (simp add: chunk_of_def joined_def strip_def)
next
  case (snoc s g)
  have eq: "chunk_of (g @ [s]) = strip (joined g @ s)"
    using strip_snoc_space [OF space_is_space, of "joined g @ s"]
    by (simp add: chunk_of_def joined_snoc)
  show ?case
  proof (cases "s = []")
    case True
    with eq snoc show ?thesis by (simp add: chunk_of_def)
  next
    case False
    from snoc.prems have t: "trimmed s" and d: "last s = dot" using False by simp_all
    have "strip (joined g @ s @ []) = dropWhile is_space (joined g) @ s @ rev (dropWhile is_space (rev []))"
      using False t by (rule strip_keep_middle)
    then have "chunk_of (g @ [s]) = dropWhile is_space (joined g) @ s" using eq by simp
    then show ?thesis using False d by simp
  qed
qed

lemma filter_joined:
  "filter (\<lambda>c. \<not> is_space c \<and> Q c) (joined g) = filter (\<lambda>c. \<not> is_space c \<and> Q c) (concat g)"
  by (induction g) (simp_all add: joined_def space_is_space)

lemma filter_chunks:
  "filter (\<lambda>c. \<not> is_space c \<and> Q c) (concat (map chunk_of groups)) =
   filter (\<lambda>c. \<not> is_space c \<and> Q c) (concat (concat groups))"
  by (induction groups) (simp_all add: chunk_of_def filter_strip filter_joined)

lemma filter_normalize_sentence:
  "filter (\<lambda>c. \<not> is_space c \<and> c \<noteq> dot) (normalize_sentence s) =
   filter (\<lambda>c. \<not> is_space c \<and> c \<noteq> dot) s"
  by (simp add: normalize_sentence_def Let_def filter_strip)

lemma filter_split_dot_space:
  "filter (\<lambda>c. \<not> is_space c \<and> c \<noteq> dot) (concat (split_dot_space piece xs)) =
   filter (\<lambda>c. \<not> is_space c \<and> c \<noteq> dot) (piece @ xs)"
proof (induction piece xs rule: split_dot_space.induct)
  case (3 piece c d cs)
  show ?case
  proof (cases "c = dot \<and> d = space")
    case True
    then show ?thesis using 3(1) by (simp add: space_is_space)
  next
    case False
    then have "split_dot_space piece (c # d # cs) = split_dot_space (piece @ [c]) (d # cs)"
      by (simp only: split_dot_space.simps if_False)
    moreover have "(piece @ [c]) @ d # cs = piece @ c # d # cs" by simp
    ultimately show ?thesis using 3(2) [OF False] by (simp only:)
  qed
qed simp_all

lemma filter_replace_newlines:
  "filter (\<lambda>c. \<not> is_space c \<and> Q c) (replace_newlines text) =
   filter (\<lambda>c. \<not> is_space c \<and> Q c) text"
  by (induction "text") (simp_all add: replace_newlines_def space_is_space newline_is_space)

lemma filter_sentences:
  "filter (\<lambda>c. \<not> is_space c \<and> c \<noteq> dot) (concat (map normalize_sentence (sentences text))) =
   filter (\<lambda>c. \<not> is_space c \<and> c \<noteq> dot) text"
proof -
  have "filter (\<lambda>c. \<not> is_space c \<and> c \<noteq> dot) (concat (map normalize_sentence ss)) =
      filter (\<lambda>c. \<not> is_space c \<and> c \<noteq> dot) (concat ss)" for ss
    by (induction ss) (simp_all add: filter_normalize_sentence)
  then show ?thesis
    by (simp add: sentences_def filter_split_dot_space filter_replace_newlines)
qed

lemma group_member_normalized:
  assumes "concat groups = map normalize_sentence ss" and "g \<in> set groups" and "s \<in> set g"
  shows "trimmed s \<and> (s \<noteq> [] \<longrightarrow> last s = dot)"
proof -
  from assms(2,3) have "s \<in> set (concat groups)" by auto
  with assms(1) obtain x where "s = normalize_sentence x" by auto
  then show ?thesis by (simp add: trimmed_normalize_sentence last_normalize_sentence)
qed

lemma oversized_group_single:
  assumes "g = [] \<or> int (length (joined g)) \<le> m \<or> (\<exists>s. g = [s])"
    and "g' \<in> set (group_loop m ss g)"
    and "m < int (length (chunk_of g'))"
  shows "\<exists>s. g' = [s]"
proof -
  have "length (chunk_of g') \<le> length (joined g')"
    by (simp add: chunk_of_def length_strip_le)
  with assms(3) have "\<not> int (length (joined g')) \<le> m" by simp
  with group_loop_bound [OF assms(1,2)] show ?thesis by blast
qed

lemma dot_neq_space: "dot \<noteq> space"
  by (simp add: dot_def space_def)

lemma split_dot_space_trailing:
  "split_dot_space piece (t @ [dot, space]) = split_dot_space piece t @ [[]]"
proof (induction piece t rule: split_dot_space.induct)
  case (1 piece)
  show ?case by simp
next
  case (2 piece c)
  show ?case by (simp add: dot_neq_space)
next
  case (3 piece c d cs)
  show ?case
  proof (cases "c = dot \<and> d = space")
    case True
    then show ?thesis using 3(1) by simp
  next
    case False
    have "split_dot_space piece ((c # d # cs) @ [dot, space]) =
        split_dot_space (piece @ [c]) ((d # cs) @ [dot, space])"
      using False by (simp only: append_Cons split_dot_space.simps if_False)
    moreover have "split_dot_space piece (c # d # cs) = split_dot_space (piece @ [c]) (d # cs)"
      using False by (simp only: split_dot_space.simps if_False)
    ultimately show ?thesis using 3(2) [OF False] by (simp only:)
  qed
qed

lemma sentences_trailing: "sentences (t @ [dot, space]) = sentences t @ [[]]"
proof -
  have "replace_newlines (t @ [dot, space]) = replace_newlines t @ [dot, space]"
    by (simp add: replace_newlines_def dot_def space_def newline_def)
  then show ?thesis by (simp add: sentences_def split_dot_space_trailing)
qed

lemma chunk_loop_append:
  "chunk_loop m (xs @ ys) (chunks, current) = chunk_loop m ys (chunk_loop m xs (chunks, current))"
  by (induction xs arbitrary: chunks current) (simp_all add: Let_def)

lemma normalize_sentence_Nil: "normalize_sentence [] = []"
  by (simp add: normalize_sentence_def strip_def)

lemma split_text_trailing_empty:
  assumes "chunk_loop m (sentences t) ([], []) = (chunks, current)"
    and "m < int (length current) + 1"
  shows "split_text (t @ [dot, space]) m =
    (if current \<noteq> [] then chunks @ [strip current] else chunks) @ [[]]"
proof -
  have "chunk_loop m (sentences (t @ [dot, space])) ([], []) = chunk_loop m [[]] (chunks, current)"
    using assms(1) chunk_loop_append [of m "sentences t" "[[]]" "[]" "[]"]
    by (simp only: sentences_trailing)
  also have "\<dots> = (if current \<noteq> [] then chunks @ [strip current] else chunks, [space])"
    using assms(2) by (simp add: normalize_sentence_Nil)
  finally show ?thesis
    by (simp add: split_text_def strip_def space_is_space)
qed


section \<open>The chunker: the claims\<close>

lemmas chunker_eval =
  str_def split_text_def sentences_def replace_newlines_def normalize_sentence_def
  strip_def endswith_dot_def is_space_def newline_def space_def dot_def

text \<open>
  C1. If every normalized sentence of the text has length at most \<open>max_length\<close>, every
  chunk that \<open>split_text\<close> returns has length at most \<open>max_length\<close>. In general the
  chunks are the groups of a partition of the normalized sentences, and a chunk is longer
  than \<open>max_length\<close> only when its group is one sentence, the chunk is that sentence and
  the sentence alone is longer than \<open>max_length\<close>.
\<close>

theorem split_text_chunk_bound:
  "((\<forall>s\<in>set (sentences text). int (length (normalize_sentence s)) \<le> max_length) \<longrightarrow>
      (\<forall>c\<in>set (split_text text max_length). int (length c) \<le> max_length)) \<and>
   (\<exists>groups. concat groups = map normalize_sentence (sentences text) \<and>
      split_text text max_length = map chunk_of groups \<and>
      (\<forall>g\<in>set groups. max_length < int (length (chunk_of g)) \<longrightarrow>
         (\<exists>s. g = [s] \<and> chunk_of g = s \<and> max_length < int (length s))))"
proof -
  let ?ss = "map normalize_sentence (sentences text)"
  let ?groups = "group_loop max_length ?ss []"
  have c: "concat ?groups = ?ss" by (simp add: concat_group_loop)
  have eq: "split_text text max_length = map chunk_of ?groups" by (rule split_text_groups)
  have big: "\<exists>s. g = [s] \<and> chunk_of g = s \<and> max_length < int (length s)"
    if g: "g \<in> set ?groups" and l: "max_length < int (length (chunk_of g))" for g
  proof -
    from oversized_group_single [OF _ g l] obtain s where s: "g = [s]" by auto
    with g c have "trimmed s"
      using group_member_normalized [of ?groups "sentences text" g s] by simp
    then have "chunk_of g = s" using s by (simp add: chunk_of_single)
    with s l show ?thesis by simp
  qed
  have small: "int (length c) \<le> max_length"
    if a: "\<forall>s\<in>set (sentences text). int (length (normalize_sentence s)) \<le> max_length"
      and m: "c \<in> set (split_text text max_length)" for c
  proof (rule ccontr)
    assume n: "\<not> int (length c) \<le> max_length"
    from m eq obtain g where g: "g \<in> set ?groups" and cg: "c = chunk_of g" by auto
    with n big [of g] obtain s where s: "g = [s]" "chunk_of g = s" by auto
    with g have "[s] \<in> set ?groups" by simp
    then have "s \<in> set (concat ?groups)" by (auto intro: bexI [of _ "[s]"])
    with c have "s \<in> set ?ss" by simp
    with a have "int (length s) \<le> max_length" by auto
    with n cg s show False by simp
  qed
  from c eq big small show ?thesis by blast
qed

theorem split_text_chunk_bound_witness:
  "list_all (\<lambda>s. int (length (normalize_sentence s)) \<le> 15)
     (sentences (str ''Hello world. This is a test.'')) \<and>
   list_all (\<lambda>c. int (length c) \<le> 15)
     (split_text (str ''Hello world. This is a test.'') 15) \<and>
   (\<exists>groups. split_text (str ''Hello world. This is a test.'') 12 = map chunk_of groups \<and>
      [str ''This is a test.''] \<in> set groups)"
proof -
  let ?T = "str ''Hello world. This is a test.''"
  let ?B = "str ''This is a test.''"
  have h: "\<forall>s\<in>set (sentences ?T). int (length (normalize_sentence s)) \<le> 15"
    by (simp add: chunker_eval)
  have a: "\<forall>c\<in>set (split_text ?T 15). int (length c) \<le> 15"
    using split_text_chunk_bound [of ?T 15] h by blast
  from split_text_chunk_bound [of ?T 12] obtain groups
    where g1: "split_text ?T 12 = map chunk_of groups"
      and g2: "\<forall>g\<in>set groups. 12 < int (length (chunk_of g)) \<longrightarrow>
        (\<exists>s. g = [s] \<and> chunk_of g = s \<and> 12 < int (length s))"
    by blast
  have "split_text ?T 12 = [str ''Hello world.'', ?B]"
    by (simp add: chunker_eval)
  then have "?B \<in> set (split_text ?T 12)" by simp
  then have "?B \<in> set (map chunk_of groups)" by (simp only: g1)
  then obtain g where g: "g \<in> set groups" and cg: "chunk_of g = ?B" by auto
  have "12 < int (length ?B)" by (simp add: str_def)
  with g g2 cg have "\<exists>s. g = [s] \<and> chunk_of g = s" by auto
  with cg have "g = [?B]" by auto
  with g g1 have "\<exists>groups. split_text ?T 12 = map chunk_of groups \<and> [?B] \<in> set groups"
    by blast
  with h a show ?thesis by (simp only: list_all_iff simp_thms)
qed

text \<open>
  C4, as stated, fails: for the text \<open>Hello world. This is a test. \<close> of 29 characters
  and \<open>max_length = 15\<close> the result has three elements, the last one the empty string.
\<close>

theorem split_text_scenario_counterexample:
  "length (str ''Hello world. This is a test. '') = 29 \<and>
   split_text (str ''Hello world. This is a test. '') 15 =
     [str ''Hello world.'', str ''This is a test.'', []] \<and>
   split_text (str ''Hello world. This is a test. '') 15 \<noteq>
     [str ''Hello world.'', str ''This is a test.'']"
  by (simp add: chunker_eval)

text \<open>
  C4, amended: for the trimmed text, as \<open>main\<close> passes it (28 characters), and
  \<open>max_length = 15\<close>, \<open>split_text\<close> returns exactly the two chunks; the second sentence
  has 15 characters.
\<close>

theorem split_text_scenario_trimmed:
  "length (str ''Hello world. This is a test.'') = 28 \<and>
   length (str ''This is a test.'') = 15 \<and>
   split_text (str ''Hello world. This is a test.'') 15 =
     [str ''Hello world.'', str ''This is a test.'']"
  by (simp add: chunker_eval)

text \<open>
  C5. For a non-empty text and a positive \<open>max_length\<close>: the chunks are the groups of a
  partition of the list of normalized sentences into non-empty runs of consecutive
  sentences, in order, so every sentence is in exactly one chunk, where it occurs whole;
  the chunks contain the characters of the normalized sentences, up to whitespace; and
  they contain the characters of the input, up to whitespace and periods. (\<open>split_text\<close>
  is a total function: no operation of the source can raise on a string and an integer.)
\<close>

theorem split_text_preserves_sentences:
  assumes "text \<noteq> []" and "0 < max_length"
  shows "(\<exists>groups. concat groups = map normalize_sentence (sentences text) \<and>
            [] \<notin> set groups \<and>
            split_text text max_length = map chunk_of groups \<and>
            (\<forall>g\<in>set groups. \<forall>s\<in>set g. \<exists>pre post. chunk_of g = pre @ s @ post)) \<and>
         filter (\<lambda>c. \<not> is_space c) (concat (split_text text max_length)) =
           filter (\<lambda>c. \<not> is_space c) (concat (map normalize_sentence (sentences text))) \<and>
         filter (\<lambda>c. \<not> is_space c \<and> c \<noteq> dot) (concat (split_text text max_length)) =
           filter (\<lambda>c. \<not> is_space c \<and> c \<noteq> dot) text"
proof -
  let ?ss = "map normalize_sentence (sentences text)"
  let ?groups = "group_loop max_length ?ss []"
  have c: "concat ?groups = ?ss" by (simp add: concat_group_loop)
  have n: "[] \<notin> set ?groups" by (rule group_loop_nonempty)
  have eq: "split_text text max_length = map chunk_of ?groups" by (rule split_text_groups)
  have inf: "\<forall>g\<in>set ?groups. \<forall>s\<in>set g. \<exists>pre post. chunk_of g = pre @ s @ post"
    using group_member_normalized [OF c] chunk_of_contains by blast
  have "filter (\<lambda>c. \<not> is_space c \<and> True) (concat (map chunk_of ?groups)) =
      filter (\<lambda>c. \<not> is_space c \<and> True) (concat (concat ?groups))"
    by (rule filter_chunks)
  then have f1: "filter (\<lambda>c. \<not> is_space c) (concat (split_text text max_length)) =
      filter (\<lambda>c. \<not> is_space c) (concat ?ss)"
    using eq c by simp
  have "filter (\<lambda>c. \<not> is_space c \<and> c \<noteq> dot) (concat (map chunk_of ?groups)) =
      filter (\<lambda>c. \<not> is_space c \<and> c \<noteq> dot) (concat (concat ?groups))"
    by (rule filter_chunks)
  then have f2: "filter (\<lambda>c. \<not> is_space c \<and> c \<noteq> dot) (concat (split_text text max_length)) =
      filter (\<lambda>c. \<not> is_space c \<and> c \<noteq> dot) text"
    using eq c by (simp add: filter_sentences)
  from c n eq inf f1 f2 show ?thesis by blast
qed

theorem split_text_preserves_sentences_witness:
  "str ''One.\<newline>Two. Three'' \<noteq> [] \<and> (0::int) < 6 \<and>
   split_text (str ''One.\<newline>Two. Three'') 6 = [str ''One.'', str ''Two.'', str ''Three.''] \<and>
   filter (\<lambda>c. \<not> is_space c \<and> c \<noteq> dot) (concat (split_text (str ''One.\<newline>Two. Three'') 6)) =
     filter (\<lambda>c. \<not> is_space c \<and> c \<noteq> dot) (str ''One.\<newline>Two. Three'')"
proof -
  have a: "str ''One.\<newline>Two. Three'' \<noteq> []" by (simp add: str_def)
  have b: "(0::int) < 6" by simp
  have v: "split_text (str ''One.\<newline>Two. Three'') 6 =
      [str ''One.'', str ''Two.'', str ''Three.'']"
    by (simp add: chunker_eval)
  from a b v split_text_preserves_sentences [OF a b] show ?thesis by blast
qed

text \<open>
  C6. When the input is a single sentence whose normalized form is longer than
  \<open>max_length\<close>, \<open>split_text\<close> returns exactly one chunk, that sentence, and the chunk is
  longer than \<open>max_length\<close>.
\<close>

theorem split_text_single_long_sentence:
  assumes "sentences text = [sentence]"
    and "max_length < int (length (normalize_sentence sentence))"
  shows "split_text text max_length = [normalize_sentence sentence] \<and>
    max_length < int (length (hd (split_text text max_length)))"
proof -
  have "strip (normalize_sentence sentence @ [space]) = normalize_sentence sentence"
    by (simp add: strip_trimmed_space trimmed_normalize_sentence)
  with assms show ?thesis by (simp add: split_text_def Let_def)
qed

theorem split_text_single_long_sentence_witness:
  "sentences (str ''Hello world'') = [str ''Hello world''] \<and>
   5 < int (length (normalize_sentence (str ''Hello world''))) \<and>
   split_text (str ''Hello world'') 5 = [str ''Hello world.'']"
proof -
  have a: "sentences (str ''Hello world'') = [str ''Hello world'']"
    by (simp add: chunker_eval)
  have n: "normalize_sentence (str ''Hello world'') = str ''Hello world.''"
    by (simp add: chunker_eval)
  have b: "5 < int (length (normalize_sentence (str ''Hello world'')))"
    by (simp add: n) (simp add: str_def)
  from split_text_single_long_sentence [OF a b] a b n show ?thesis by simp
qed

text \<open>
  C7, as stated, fails: with the finalization that trims trailing whitespace only, the
  greedy algorithm of the specification returns a chunk with a leading space where
  \<open>split_text\<close> returns none. In \<open>ab. . b\<close> with \<open>max_length = 4\<close> the second chunk
  begins with the empty sentence between the two delimiters.
\<close>

theorem split_text_greedy_counterexample:
  "split_text (str ''ab. . b'') 4 = [str ''ab.'', str ''b.''] \<and>
   greedy_chunks rstrip 4 (map normalize_sentence (sentences (str ''ab. . b''))) [] =
     [str ''ab.'', str '' b.''] \<and>
   split_text (str ''ab. . b'') 4 \<noteq>
     greedy_chunks rstrip 4 (map normalize_sentence (sentences (str ''ab. . b''))) []"
  by (simp add: chunker_eval rstrip_def)

text \<open>
  C7, amended: \<open>split_text\<close> is the greedy algorithm whose finalization trims leading and
  trailing whitespace (\<open>strip\<close>).
\<close>

theorem split_text_equals_greedy:
  "split_text text max_length =
   greedy_chunks strip max_length (map normalize_sentence (sentences text)) []"
  using chunk_loop_greedy [of max_length "sentences text" "[]" "[]"]
  by (simp add: split_text_def)

text \<open>
  C9. Every chunk that \<open>split_text\<close> returns has no leading and no trailing whitespace,
  and every non-empty chunk ends with a period.
\<close>

theorem split_text_chunks_trimmed:
  "\<forall>c\<in>set (split_text text max_length).
     c \<noteq> [] \<longrightarrow> \<not> is_space (hd c) \<and> \<not> is_space (last c) \<and> last c = dot"
proof (intro ballI impI)
  fix c
  assume m: "c \<in> set (split_text text max_length)" and ne: "c \<noteq> []"
  let ?ss = "map normalize_sentence (sentences text)"
  let ?groups = "group_loop max_length ?ss []"
  from m obtain g where g: "g \<in> set ?groups" and cg: "c = chunk_of g"
    by (auto simp: split_text_groups)
  have "trimmed c" unfolding cg chunk_of_def by (rule trimmed_strip)
  moreover have "\<forall>s\<in>set g. trimmed s \<and> (s \<noteq> [] \<longrightarrow> last s = dot)"
    using group_member_normalized [of ?groups "sentences text" g] g
    by (simp add: concat_group_loop)
  then have "chunk_of g = [] \<or> last (chunk_of g) = dot" by (rule chunk_of_ends_with_dot)
  ultimately show "\<not> is_space (hd c) \<and> \<not> is_space (last c) \<and> last c = dot"
    using ne cg by (simp add: trimmed_def)
qed

theorem split_text_chunks_trimmed_witness:
  "str ''This is a test.'' \<in> set (split_text (str '' Hello world.  This is a test'') 15) \<and>
   str ''This is a test.'' \<noteq> [] \<and>
   \<not> is_space (hd (str ''This is a test.'')) \<and>
   \<not> is_space (last (str ''This is a test.'')) \<and>
   last (str ''This is a test.'') = dot"
proof -
  have a: "str ''This is a test.'' \<in> set (split_text (str '' Hello world.  This is a test'') 15)"
    by (simp add: chunker_eval)
  have b: "str ''This is a test.'' \<noteq> []" by (simp add: str_def)
  from a b split_text_chunks_trimmed [of "str '' Hello world.  This is a test''" 15]
  show ?thesis by blast
qed


section \<open>Properties of the synthesis loop and of the runs\<close>

lemma synthesize_chunks_ok:
  assumes "length bs = length chunks"
    and "\<forall>k<length chunks. \<exists>r. respond w (i + k) (AudioSpeechCreate model voice (chunks ! k)) = Inr r \<and>
           response_content r = bs ! k"
  shows "synthesize_chunks w model voice i chunks audio_data =
    (map (\<lambda>chunk. Call (AudioSpeechCreate model voice chunk)) chunks, Inr (audio_data @ concat bs))"
  using assms
proof (induction chunks arbitrary: i bs audio_data)
  case Nil
  then show ?case by simp
next
  case (Cons chunk rest)
  from Cons.prems(1) obtain b bs' where bs: "bs = b # bs'" and len: "length bs' = length rest"
    by (cases bs) simp_all
  from Cons.prems(2) [rule_format, of 0] obtain r
    where r: "respond w i (AudioSpeechCreate model voice chunk) = Inr r" "response_content r = b"
    by (auto simp: bs)
  have "\<forall>k<length rest. \<exists>r. respond w (Suc i + k) (AudioSpeechCreate model voice (rest ! k)) = Inr r \<and>
      response_content r = bs' ! k"
  proof (intro allI impI)
    fix k assume "k < length rest"
    then have "Suc k < length (chunk # rest)" by simp
    from Cons.prems(2) [rule_format, OF this]
    show "\<exists>r. respond w (Suc i + k) (AudioSpeechCreate model voice (rest ! k)) = Inr r \<and>
      response_content r = bs' ! k" by (simp add: bs)
  qed
  from Cons.IH [OF len this] r show ?case by (simp add: bs)
qed

lemma synthesize_chunks_fail:
  assumes "k < length chunks"
    and "\<forall>j<k. \<exists>r. respond w (i + j) (AudioSpeechCreate model voice (chunks ! j)) = Inr r"
    and "respond w (i + k) (AudioSpeechCreate model voice (chunks ! k)) = Inl e"
  shows "synthesize_chunks w model voice i chunks audio_data =
    (map (\<lambda>chunk. Call (AudioSpeechCreate model voice chunk)) (take (Suc k) chunks), Inl e)"
  using assms
proof (induction chunks arbitrary: i k audio_data)
  case Nil
  then show ?case by simp
next
  case (Cons chunk rest)
  show ?case
  proof (cases k)
    case 0
    with Cons.prems(3) show ?thesis by simp
  next
    case (Suc k')
    from Cons.prems(2) [rule_format, of 0] Suc obtain r
      where r: "respond w i (AudioSpeechCreate model voice chunk) = Inr r" by auto
    have a: "k' < length rest" using Cons.prems(1) Suc by simp
    have b: "\<forall>j<k'. \<exists>r. respond w (Suc i + j) (AudioSpeechCreate model voice (rest ! j)) = Inr r"
    proof (intro allI impI)
      fix j assume "j < k'"
      then have "Suc j < k" using Suc by simp
      from Cons.prems(2) [rule_format, OF this]
      show "\<exists>r. respond w (Suc i + j) (AudioSpeechCreate model voice (rest ! j)) = Inr r" by simp
    qed
    have c: "respond w (Suc i + k') (AudioSpeechCreate model voice (rest ! k')) = Inl e"
      using Cons.prems(3) Suc by simp
    from Cons.IH [OF a b c] r Suc show ?thesis by simp
  qed
qed

lemma files_after_calls:
  "files_after files (map Call requests @ events) = files_after files events"
  by (induction requests) simp_all

lemma files_after_calls_map:
  "files_after files (map (\<lambda>x. Call (f x)) xs @ events) = files_after files events"
  using files_after_calls [of files "map f xs" events] by (simp add: comp_def)

lemma submitted_speech_calls:
  "submitted (map (\<lambda>chunk. Call (AudioSpeechCreate model voice chunk)) chunks @ events) =
   chunks @ submitted events"
  by (induction chunks) simp_all

lemma submitted_all_ok:
  assumes "\<forall>k<length chunks. \<exists>r. respond w (i + k) (AudioSpeechCreate model voice (chunks ! k)) = Inr r"
  shows "submitted (fst (synthesize_chunks w model voice i chunks audio_data)) = chunks"
  using assms
proof (induction chunks arbitrary: i audio_data)
  case Nil
  show ?case by simp
next
  case (Cons chunk rest)
  from Cons.prems [rule_format, of 0] obtain r
    where r: "respond w i (AudioSpeechCreate model voice chunk) = Inr r" by auto
  have "\<forall>k<length rest. \<exists>r. respond w (Suc i + k) (AudioSpeechCreate model voice (rest ! k)) = Inr r"
  proof (intro allI impI)
    fix k assume "k < length rest"
    then have "Suc k < length (chunk # rest)" by simp
    from Cons.prems [rule_format, OF this]
    show "\<exists>r. respond w (Suc i + k) (AudioSpeechCreate model voice (rest ! k)) = Inr r" by simp
  qed
  from Cons.IH [OF this] r show ?case by (simp add: case_prod_beta)
qed

lemma split_dot_space_nonempty: "split_dot_space piece xs \<noteq> []"
  by (induction piece xs rule: split_dot_space.induct) simp_all

lemma split_dot_space_no_space:
  "space \<notin> set xs \<Longrightarrow> split_dot_space piece xs = [piece @ xs]"
  by (induction piece xs rule: split_dot_space.induct) auto

lemma split_dot_space_first:
  "space \<notin> set xs \<Longrightarrow>
   split_dot_space piece (xs @ dot # space # ys) = (piece @ xs) # split_dot_space [] ys"
proof (induction xs arbitrary: piece)
  case Nil
  show ?case by simp
next
  case (Cons c xs)
  from Cons.prems have s: "space \<notin> set xs" by simp
  obtain d rest where r: "xs @ dot # space # ys = d # rest" and d: "d \<noteq> space"
    using Cons.prems dot_neq_space by (cases xs) auto
  have "split_dot_space piece ((c # xs) @ dot # space # ys) =
      split_dot_space (piece @ [c]) (xs @ dot # space # ys)"
    using d by (simp add: r)
  with Cons.IH [OF s, of "piece @ [c]"] show ?case by simp
qed

lemma last_split_dot_space:
  "xs \<noteq> [] \<Longrightarrow> last xs \<noteq> space \<Longrightarrow>
   last (split_dot_space piece xs) \<noteq> [] \<and> last (last (split_dot_space piece xs)) = last xs"
proof (induction piece xs rule: split_dot_space.induct)
  case (1 piece)
  then show ?case by simp
next
  case (2 piece c)
  show ?case by simp
next
  case (3 piece c d cs)
  show ?case
  proof (cases "c = dot \<and> d = space")
    case True
    with 3(4) have cs: "cs \<noteq> []" by auto
    with 3(4) have "last cs \<noteq> space" by simp
    from 3(1) [OF True cs this] True cs show ?thesis
      by (simp add: split_dot_space_nonempty)
  next
    case False
    have "last (d # cs) \<noteq> space" using 3(4) by simp
    from 3(2) [OF False _ this] False show ?thesis by auto
  qed
qed

lemma submitted_append: "submitted (xs @ ys) = submitted xs @ submitted ys"
  by (induction xs rule: submitted.induct) simp_all

lemma submitted_synthesize_chunks:
  "\<exists>n. submitted (fst (synthesize_chunks w model voice i chunks audio_data)) = take n chunks"
proof (induction chunks arbitrary: i audio_data)
  case Nil
  show ?case by simp
next
  case (Cons chunk rest)
  show ?case
  proof (cases "respond w i (AudioSpeechCreate model voice chunk)")
    case (Inl e)
    then have "submitted (fst (synthesize_chunks w model voice i (chunk # rest) audio_data)) =
        take 1 (chunk # rest)" by simp
    then show ?thesis by blast
  next
    case (Inr r)
    from Cons.IH [of "Suc i" "audio_data @ response_content r"] obtain n
      where "submitted (fst (synthesize_chunks w model voice (Suc i) rest
          (audio_data @ response_content r))) = take n rest" by blast
    with Inr have "submitted (fst (synthesize_chunks w model voice i (chunk # rest) audio_data)) =
        take (Suc n) (chunk # rest)" by (simp add: case_prod_beta)
    then show ?thesis by blast
  qed
qed

lemma submitted_synthesize_and_save:
  "\<exists>n. submitted (fst (synthesize_and_save w model voice output_file chunks)) = take n chunks"
proof -
  obtain events result where sc: "synthesize_chunks w model voice 0 chunks [] = (events, result)"
    by (cases "synthesize_chunks w model voice 0 chunks []") blast
  from submitted_synthesize_chunks [of w model voice 0 chunks "[]"] obtain n
    where n: "submitted events = take n chunks" by (auto simp: sc)
  have "submitted (fst (synthesize_and_save w model voice output_file chunks)) = submitted events"
    by (simp add: synthesize_and_save_def sc submitted_append split: sum.splits option.splits)
  with n show ?thesis by auto
qed

lemma submitted_finish: "submitted (finish caught (events, ending)) = submitted events"
  by (cases ending) (simp_all add: submitted_append)

lemma submitted_try:
  assumes "read_text w input_file = Inr contents" and "strip contents \<noteq> []"
  shows "\<exists>n. submitted (text_to_speech_file_try w input_file output_file voice model) =
    take n (split_text (strip contents) 4096)"
proof -
  let ?chunks = "split_text (strip contents) 4096"
  obtain events ending
    where ss: "synthesize_and_save w model voice output_file ?chunks = (events, ending)"
    by (cases "synthesize_and_save w model voice output_file ?chunks") blast
  from submitted_synthesize_and_save [of w model voice output_file ?chunks] obtain n
    where n: "submitted events = take n ?chunks" by (auto simp: ss)
  have "submitted (text_to_speech_file_try w input_file output_file voice model) = submitted events"
    using assms
    by (cases ending)
      (simp_all add: text_to_speech_file_try_def text_to_speech_file_body_def Let_def ss
        submitted_finish submitted_append)
  with n show ?thesis by auto
qed

lemma trimmed_no_trailing_space: "trimmed s \<Longrightarrow> s \<noteq> t @ [dot, space]"
  by (auto simp: trimmed_def space_is_space)

lemma last_concat_groups:
  "groups \<noteq> [] \<Longrightarrow> [] \<notin> set groups \<Longrightarrow> last (concat groups) = last (last groups)"
proof (induction groups)
  case Nil
  then show ?case by simp
next
  case (Cons g groups)
  show ?case
  proof (cases "groups = []")
    case True
    then show ?thesis by simp
  next
    case False
    from Cons.prems have n: "[] \<notin> set groups" by simp
    from False have "hd groups \<in> set groups" by simp
    with n have "hd groups \<noteq> []" by metis
    with False have "concat groups \<noteq> []" by (cases groups) simp_all
    then have "last (concat (g # groups)) = last (concat groups)" by simp
    also have "\<dots> = last (last groups)" using Cons.IH [OF False n] .
    finally show ?thesis using False by simp
  qed
qed

lemma chunk_of_last_nonempty:
  assumes "g \<noteq> []" and "last g \<noteq> []" and "trimmed (last g)"
  shows "chunk_of g \<noteq> []"
proof -
  from assms(1) obtain g' s where g: "g = g' @ [s]" by (cases g rule: rev_cases) auto
  with assms have s: "s \<noteq> []" "trimmed s" by simp_all
  have "chunk_of g = strip (joined g' @ s)"
    using strip_snoc_space [OF space_is_space, of "joined g' @ s"]
    by (simp add: g chunk_of_def joined_snoc)
  also have "\<dots> = strip (joined g' @ s @ [])" by simp
  also have "\<dots> = dropWhile is_space (joined g') @ s @ rev (dropWhile is_space (rev []))"
    using s by (rule strip_keep_middle)
  finally show ?thesis using s by simp
qed

lemma normalize_sentence_nonempty:
  assumes "s \<noteq> []" and "\<not> is_space (last s)"
  shows "normalize_sentence s \<noteq> []"
proof -
  have "filter (\<lambda>c. \<not> is_space c \<and> True) (strip s) = filter (\<lambda>c. \<not> is_space c \<and> True) s"
    by (rule filter_strip)
  moreover have "last s \<in> set s" using assms(1) by simp
  then have "filter (\<lambda>c. \<not> is_space c) s \<noteq> []"
    using assms(2) by (auto simp: filter_empty_conv)
  ultimately have "strip s \<noteq> []" by auto
  then show ?thesis by (auto simp: normalize_sentence_def Let_def)
qed

lemma last_sentence_nonempty:
  assumes "text \<noteq> []" and "\<not> is_space (last text)"
  shows "normalize_sentence (last (sentences text)) \<noteq> []"
proof -
  let ?r = "replace_newlines text"
  have r: "?r \<noteq> []" using assms(1) by (simp add: replace_newlines_def)
  have "last text \<noteq> newline" using assms(2) newline_is_space by auto
  then have l: "last ?r = last text"
    using assms(1) by (simp add: replace_newlines_def last_map)
  then have "last ?r \<noteq> space" using assms(2) space_is_space by auto
  from last_split_dot_space [OF r this, of "[]"] l assms(2)
  have "last (sentences text) \<noteq> []" and "\<not> is_space (last (last (sentences text)))"
    by (simp_all add: sentences_def)
  then show ?thesis by (rule normalize_sentence_nonempty)
qed

lemma split_text_last_nonempty:
  assumes "text \<noteq> []" and "\<not> is_space (last text)"
  shows "split_text text m \<noteq> [] \<and> last (split_text text m) \<noteq> []"
proof -
  let ?ss = "map normalize_sentence (sentences text)"
  let ?groups = "group_loop m ?ss []"
  have ss: "?ss \<noteq> []" by (simp add: sentences_def split_dot_space_nonempty)
  have c: "concat ?groups = ?ss" by (simp add: concat_group_loop)
  with ss have g: "?groups \<noteq> []" by auto
  have n: "[] \<notin> set ?groups" by (rule group_loop_nonempty)
  from g n have lg: "last ?groups \<noteq> []" using last_in_set by metis
  have "last (last ?groups) = last ?ss"
    using last_concat_groups [OF g n] c by simp
  also have "\<dots> = normalize_sentence (last (sentences text))"
    using ss by (simp add: last_map)
  finally have l: "last (last ?groups) = normalize_sentence (last (sentences text))" .
  have "chunk_of (last ?groups) \<noteq> []"
    using lg l last_sentence_nonempty [OF assms] trimmed_normalize_sentence
    by (intro chunk_of_last_nonempty) simp_all
  then show ?thesis using g by (simp add: split_text_groups last_map)
qed

lemma strip_last_not_space: "strip s \<noteq> [] \<Longrightarrow> \<not> is_space (last (strip s))"
  using trimmed_strip [of s] by (simp add: trimmed_def)

lemma plain_facts:
  assumes "xs \<noteq> []" and "\<forall>c\<in>set xs. \<not> is_space c \<and> c \<noteq> dot"
  shows "replace_newlines xs = xs" and "space \<notin> set xs" and "trimmed xs"
    and "trimmed (xs @ [dot])" and "\<not> endswith_dot xs"
proof -
  have "c \<noteq> newline" if "c \<in> set xs" for c
    using that assms(2) newline_is_space by auto
  then show "replace_newlines xs = xs"
    by (simp add: replace_newlines_def map_idI)
  show "space \<notin> set xs" using assms(2) space_is_space by auto
  have h: "hd xs \<in> set xs" and l: "last xs \<in> set xs" using assms(1) by simp_all
  with assms(2) show "trimmed xs" by (simp add: trimmed_def)
  from h assms show "trimmed (xs @ [dot])" by (simp add: trimmed_def dot_not_space)
  from l assms(2) show "\<not> endswith_dot xs" by (auto simp: endswith_dot_def)
qed

lemma replace_newlines_append:
  "replace_newlines (xs @ ys) = replace_newlines xs @ replace_newlines ys"
  by (simp add: replace_newlines_def)

lemma replace_newlines_dot_space: "replace_newlines (dot # space # ys) = dot # space # replace_newlines ys"
  by (simp add: replace_newlines_def dot_def space_def newline_def)

lemma replace_newlines_dot: "replace_newlines [dot] = [dot]"
  by (simp add: replace_newlines_def dot_def newline_def)

lemma normalize_sentence_plain:
  assumes "xs \<noteq> []" and "\<forall>c\<in>set xs. \<not> is_space c \<and> c \<noteq> dot"
  shows "normalize_sentence xs = xs @ [dot]" and "normalize_sentence (xs @ [dot]) = xs @ [dot]"
proof -
  note p = plain_facts [OF assms]
  show "normalize_sentence xs = xs @ [dot]"
    using assms(1) p(5) by (simp add: normalize_sentence_def strip_trimmed [OF p(3)])
  show "normalize_sentence (xs @ [dot]) = xs @ [dot]"
    by (simp add: normalize_sentence_def strip_trimmed [OF p(4)] endswith_dot_def)
qed

lemma sentences_plain:
  assumes "xs \<noteq> []" and "\<forall>c\<in>set xs. \<not> is_space c \<and> c \<noteq> dot"
  shows "sentences xs = [xs]" and "sentences (xs @ [dot]) = [xs @ [dot]]"
    and "sentences (xs @ dot # space # ys) = xs # sentences ys"
proof -
  note p = plain_facts [OF assms]
  show "sentences xs = [xs]"
    by (simp add: sentences_def p(1) split_dot_space_no_space [OF p(2)])
  have "space \<notin> set (xs @ [dot])" using p(2) dot_neq_space by auto
  then show "sentences (xs @ [dot]) = [xs @ [dot]]"
    by (simp add: sentences_def replace_newlines_append p(1) replace_newlines_dot
        split_dot_space_no_space del: set_append)
  show "sentences (xs @ dot # space # ys) = xs # sentences ys"
    by (simp add: sentences_def replace_newlines_append p(1) replace_newlines_dot_space
        split_dot_space_first [OF p(2)])
qed

lemma split_text_single:
  assumes "sentences text = [sentence]"
  shows "split_text text m = [normalize_sentence sentence]"
proof -
  have "strip (normalize_sentence sentence @ [space]) = normalize_sentence sentence"
    by (simp add: strip_trimmed_space trimmed_normalize_sentence)
  with assms show ?thesis by (simp add: split_text_def Let_def)
qed

lemma split_text_two_plain:
  assumes "xs \<noteq> []" and "\<forall>c\<in>set xs. \<not> is_space c \<and> c \<noteq> dot"
    and "ys \<noteq> []" and "\<forall>c\<in>set ys. \<not> is_space c \<and> c \<noteq> dot"
    and "int (length xs) + 2 \<le> m" and "m < int (length xs) + int (length ys) + 4"
  shows "split_text (xs @ dot # space # ys) m = [xs @ [dot], ys @ [dot]]"
proof -
  have s: "sentences (xs @ dot # space # ys) = [xs, ys]"
    by (simp add: sentences_plain(3) [OF assms(1,2)] sentences_plain(1) [OF assms(3,4)])
  have n: "normalize_sentence xs = xs @ [dot]" "normalize_sentence ys = ys @ [dot]"
    by (simp_all add: normalize_sentence_plain(1) [OF assms(1,2)]
        normalize_sentence_plain(1) [OF assms(3,4)])
  have t: "strip ((xs @ [dot]) @ [space]) = xs @ [dot]" "strip ((ys @ [dot]) @ [space]) = ys @ [dot]"
    by (simp_all only: strip_trimmed_space [OF plain_facts(4) [OF assms(1,2)]]
        strip_trimmed_space [OF plain_facts(4) [OF assms(3,4)]])
  show ?thesis
    using assms(5,6) t by (simp add: split_text_def s n)
qed

lemma split_text_trailing_plain:
  assumes "xs \<noteq> []" and "\<forall>c\<in>set xs. \<not> is_space c \<and> c \<noteq> dot"
    and "m = int (length xs) + 2"
  shows "split_text (xs @ [dot, space]) m = [xs @ [dot], []]"
proof -
  have c: "chunk_loop m (sentences xs) ([], []) = ([], (xs @ [dot]) @ [space])"
    using assms(3)
    by (simp add: sentences_plain(1) [OF assms(1,2)] normalize_sentence_plain(1) [OF assms(1,2)])
  have "m < int (length ((xs @ [dot]) @ [space])) + 1" using assms(3) by simp
  from split_text_trailing_empty [OF c this]
  show ?thesis
    by (simp only: strip_trimmed_space [OF plain_facts(4) [OF assms(1,2)]]) simp
qed

lemma split_text_inner_empty_plain:
  assumes "xs \<noteq> []" and "\<forall>c\<in>set xs. \<not> is_space c \<and> c \<noteq> dot"
    and "ys \<noteq> []" and "\<forall>c\<in>set ys. \<not> is_space c \<and> c \<noteq> dot"
    and "m = int (length xs) + 2" and "m < int (length ys) + 3"
  shows "split_text (xs @ dot # space # dot # space # ys) m = [xs @ [dot], [], ys @ [dot]]"
proof -
  have "sentences (dot # space # ys) = [] # sentences ys"
    by (simp add: sentences_def replace_newlines_dot_space)
  then have s: "sentences (xs @ dot # space # dot # space # ys) = [xs, [], ys]"
    by (simp add: sentences_plain(3) [OF assms(1,2)] sentences_plain(1) [OF assms(3,4)])
  have n: "normalize_sentence xs = xs @ [dot]" "normalize_sentence ys = ys @ [dot]"
    by (simp_all add: normalize_sentence_plain(1) [OF assms(1,2)]
        normalize_sentence_plain(1) [OF assms(3,4)])
  have t: "strip ((xs @ [dot]) @ [space]) = xs @ [dot]" "strip ((ys @ [dot]) @ [space]) = ys @ [dot]"
    by (simp_all only: strip_trimmed_space [OF plain_facts(4) [OF assms(1,2)]]
        strip_trimmed_space [OF plain_facts(4) [OF assms(3,4)]])
  have e: "strip [space] = []" by (simp add: strip_def space_is_space)
  show ?thesis
    using assms(5,6) t e by (simp add: split_text_def s n normalize_sentence_Nil)
qed

lemma trimmed_two_plain:
  assumes "xs \<noteq> []" and "\<forall>c\<in>set xs. \<not> is_space c \<and> c \<noteq> dot"
    and "ys \<noteq> []" and "\<forall>c\<in>set ys. \<not> is_space c \<and> c \<noteq> dot"
  shows "trimmed (xs @ dot # space # ys)" and "trimmed (xs @ dot # space # dot # space # ys)"
proof -
  have "hd xs \<in> set xs" and "last ys \<in> set ys" using assms(1,3) by simp_all
  with assms show "trimmed (xs @ dot # space # ys)"
    and "trimmed (xs @ dot # space # dot # space # ys)"
    by (simp_all add: trimmed_def)
qed

lemmas main_eval =
  text_to_speech_file_main_def credential_def sample_world_def arg_or_def
  valid_voices_def valid_models_def endswith_any_def audio_extensions_def endswith_def
  text_to_speech_file_try_def text_to_speech_file_body_def text_to_speech_file_caught_def
  synthesize_and_save_def failing_service_def sample_service_def sample_response_def
  handler_def Let_def


section \<open>The assembler and the scripts: the claims\<close>

text \<open>
  C2. For any list of chunks and any service that answers the call for the \<open>k\<close>-th
  chunk with the bytes \<open>bs ! k\<close>: the loop calls the service once per chunk, in the order
  of the list, and then writes the output file once, with the concatenation of the
  answers in that order (given that the file can be opened for writing).
\<close>

theorem synthesize_and_save_concatenates:
  assumes "length bs = length chunks"
    and "\<forall>k<length chunks. \<exists>r. respond w k (AudioSpeechCreate model voice (chunks ! k)) = Inr r \<and>
           response_content r = bs ! k"
    and "open_write w output_file = None"
  shows "synthesize_and_save w model voice output_file chunks =
      (map (\<lambda>chunk. Call (AudioSpeechCreate model voice chunk)) chunks @
         [WriteBytes output_file (concat bs)], Finished) \<and>
    submitted (fst (synthesize_and_save w model voice output_file chunks)) = chunks \<and>
    files_after files (fst (synthesize_and_save w model voice output_file chunks)) =
      files(output_file \<mapsto> concat bs)"
proof -
  have "synthesize_chunks w model voice 0 chunks [] =
      (map (\<lambda>chunk. Call (AudioSpeechCreate model voice chunk)) chunks, Inr ([] @ concat bs))"
    using assms(1,2) by (intro synthesize_chunks_ok) simp_all
  then have eq: "synthesize_and_save w model voice output_file chunks =
      (map (\<lambda>chunk. Call (AudioSpeechCreate model voice chunk)) chunks @
         [WriteBytes output_file (concat bs)], Finished)"
    using assms(3) by (simp add: synthesize_and_save_def)
  show ?thesis
    unfolding eq by (simp add: submitted_speech_calls files_after_calls_map)
qed

theorem synthesize_and_save_concatenates_witness:
  "length [[0], [1 :: byte]] = length [str ''One.'', str ''Two.''] \<and>
   open_write (sample_world None [] sample_service) (str ''out.mp3'') = None \<and>
   synthesize_and_save (sample_world None [] sample_service) (str ''tts-1'') (str ''alloy'')
       (str ''out.mp3'') [str ''One.'', str ''Two.''] =
     ([Call (AudioSpeechCreate (str ''tts-1'') (str ''alloy'') (str ''One.'')),
       Call (AudioSpeechCreate (str ''tts-1'') (str ''alloy'') (str ''Two.'')),
       WriteBytes (str ''out.mp3'') [0, 1]], Finished) \<and>
   files_after Map.empty
       (fst (synthesize_and_save (sample_world None [] sample_service) (str ''tts-1'')
          (str ''alloy'') (str ''out.mp3'') [str ''One.'', str ''Two.''])) (str ''out.mp3'') =
     Some [0, 1]"
proof -
  let ?w = "sample_world None [] sample_service"
  let ?chunks = "[str ''One.'', str ''Two.'']"
  let ?bs = "[[0], [1 :: byte]]"
  have a: "length ?bs = length ?chunks" by simp
  have b: "\<forall>k<length ?chunks. \<exists>r.
      respond ?w k (AudioSpeechCreate (str ''tts-1'') (str ''alloy'') (?chunks ! k)) = Inr r \<and>
      response_content r = ?bs ! k"
    by (auto simp: less_Suc_eq sample_world_def sample_service_def sample_response_def)
  have c: "open_write ?w (str ''out.mp3'') = None" by (simp add: sample_world_def)
  from synthesize_and_save_concatenates [OF a b c, of Map.empty] a c
  show ?thesis by simp
qed

text \<open>
  C3. If the call for the chunk with index \<open>k\<close> (counted from 0) raises an exception
  after the calls for the chunks before it succeeded, the run consists of the reading of
  the input file, the calls for the chunks up to that one, the report of the failure and
  the exit with status 1: no call is made for a later chunk and no file is written.
\<close>

theorem synthesis_failure_aborts:
  assumes "read_text w input_file = Inr contents" and "strip contents \<noteq> []"
    and "chunks = split_text (strip contents) 4096"
    and "k < length chunks"
    and "\<forall>j<k. \<exists>r. respond w j (AudioSpeechCreate model voice (chunks ! j)) = Inr r"
    and "respond w k (AudioSpeechCreate model voice (chunks ! k)) = Inl e"
  shows "text_to_speech_file_try w input_file output_file voice model =
      OpenRead input_file #
      map (\<lambda>chunk. Call (AudioSpeechCreate model voice chunk)) (take (Suc k) chunks) @
      [Print (handler text_to_speech_file_caught e), Exit 1] \<and>
    submitted (text_to_speech_file_try w input_file output_file voice model) =
      take (Suc k) chunks \<and>
    files_after files (text_to_speech_file_try w input_file output_file voice model) = files"
proof -
  have "synthesize_chunks w model voice 0 chunks [] =
      (map (\<lambda>chunk. Call (AudioSpeechCreate model voice chunk)) (take (Suc k) chunks), Inl e)"
    using assms(4,5,6) by (intro synthesize_chunks_fail) simp_all
  then have "synthesize_and_save w model voice output_file chunks =
      (map (\<lambda>chunk. Call (AudioSpeechCreate model voice chunk)) (take (Suc k) chunks), Raised e)"
    by (simp add: synthesize_and_save_def)
  then have eq: "text_to_speech_file_try w input_file output_file voice model =
      OpenRead input_file #
      map (\<lambda>chunk. Call (AudioSpeechCreate model voice chunk)) (take (Suc k) chunks) @
      [Print (handler text_to_speech_file_caught e), Exit 1]"
    using assms(1,2,3)
    by (simp add: text_to_speech_file_try_def text_to_speech_file_body_def Let_def)
  show ?thesis
    unfolding eq by (simp add: submitted_speech_calls files_after_calls_map)
qed

text \<open>
  The witness: a text of two sentences of 4001 characters each, which makes two chunks;
  the second call fails.
\<close>

theorem synthesis_failure_aborts_witness:
  "split_text (strip (replicate 4000 97 @ dot # space # replicate 4000 98)) 4096 =
     [replicate 4000 97 @ [dot], replicate 4000 98 @ [dot]] \<and>
   text_to_speech_file_try
       (sample_world (Some (str ''sk-test''))
          (replicate 4000 97 @ dot # space # replicate 4000 98)
          (failing_service 1 RateLimitError))
       (str ''in.txt'') (str ''out.mp3'') (str ''alloy'') (str ''tts-1'') =
     [OpenRead (str ''in.txt''),
      Call (AudioSpeechCreate (str ''tts-1'') (str ''alloy'') (replicate 4000 97 @ [dot])),
      Call (AudioSpeechCreate (str ''tts-1'') (str ''alloy'') (replicate 4000 98 @ [dot])),
      Print RateLimitExceeded, Exit 1]"
proof -
  let ?A = "replicate 4000 (97::nat)" and ?B = "replicate 4000 (98::nat)"
  let ?C = "?A @ dot # space # ?B"
  let ?w = "sample_world (Some (str ''sk-test'')) ?C (failing_service 1 RateLimitError)"
  let ?chunks = "[?A @ [dot], ?B @ [dot]]"
  have pa: "?A \<noteq> []" "\<forall>c\<in>set ?A. \<not> is_space c \<and> c \<noteq> dot"
    by (simp_all add: is_space_def dot_def)
  have pb: "?B \<noteq> []" "\<forall>c\<in>set ?B. \<not> is_space c \<and> c \<noteq> dot"
    by (simp_all add: is_space_def dot_def)
  have s: "strip ?C = ?C" by (rule strip_trimmed [OF trimmed_two_plain(1) [OF pa pb]])
  have a: "read_text ?w (str ''in.txt'') = Inr ?C" by (simp add: sample_world_def)
  have b: "strip ?C \<noteq> []" by (simp add: s)
  have c: "?chunks = split_text (strip ?C) 4096"
    unfolding s by (rule split_text_two_plain [OF pa pb, symmetric]) simp_all
  have d: "1 < length ?chunks" by simp
  have e: "\<forall>j<1. \<exists>r. respond ?w j (AudioSpeechCreate (str ''tts-1'') (str ''alloy'') (?chunks ! j)) = Inr r"
    by (simp add: sample_world_def failing_service_def sample_service_def)
  have f: "respond ?w 1 (AudioSpeechCreate (str ''tts-1'') (str ''alloy'') (?chunks ! 1)) =
      Inl RateLimitError"
    by (simp add: sample_world_def failing_service_def)
  from synthesis_failure_aborts [OF a b c d e f, of "str ''out.mp3''" Map.empty]
  show ?thesis by (simp add: c [symmetric] handler_def text_to_speech_file_caught_def)
qed

text \<open>
  C8. In every script, when the variable of the API key is absent (or empty), the run
  consists of the report of the missing key and the exit with status 1, whatever the
  arguments, the files and the service are; and a run in which the service is called is
  a run in which the key is present.
\<close>

theorem missing_api_key_exits_first:
  "(api_key w = None \<or> api_key w = Some [] \<longrightarrow>
      run script fuel w = [Print MissingApiKey, Exit 1]) \<and>
   (Call request \<in> set (run script fuel w) \<longrightarrow> (\<exists>key. api_key w = Some key \<and> key \<noteq> []))"
proof -
  have a: "run script fuel w = [Print MissingApiKey, Exit 1]" if "credential w = None"
    using that
    by (cases script)
      (simp_all add: batch_embeddings_main_def chat_gpt_main_def check_fine_tune_status_main_def
        fine_tune_main_def text_embeddings_main_def text_to_speech_main_def
        text_to_speech_file_main_def use_fine_tuned_model_main_def)
  have b: "credential w = None \<longleftrightarrow> api_key w = None \<or> api_key w = Some []"
    by (simp add: credential_def split: option.splits)
  show ?thesis
  proof (cases "credential w = None")
    case True
    with a b show ?thesis by auto
  next
    case False
    with b show ?thesis by (cases "api_key w") auto
  qed
qed

theorem missing_api_key_exits_first_witness:
  "api_key (sample_world None (str ''Hello.'') sample_service) = None \<and>
   list_all
     (\<lambda>script. run script 5 (sample_world None (str ''Hello.'') sample_service) =
        [Print MissingApiKey, Exit 1])
     [BatchEmbeddings, ChatGpt, CheckFineTuneStatus, FineTune,
      TextEmbeddings, TextToSpeech, TextToSpeechFile, UseFineTunedModel] \<and>
   Call (AudioSpeechCreate (str ''tts-1'') (str ''alloy'') (str ''Hello.'')) \<in>
     set (run TextToSpeechFile 5
       (sample_world (Some (str ''sk-test'')) (str ''Hello.'') sample_service)) \<and>
   (\<exists>key. api_key (sample_world (Some (str ''sk-test'')) (str ''Hello.'') sample_service) =
      Some key \<and> key \<noteq> [])"
proof -
  let ?w = "sample_world None (str ''Hello.'') sample_service"
  let ?v = "sample_world (Some (str ''sk-test'')) (str ''Hello.'') sample_service"
  have a: "api_key ?w = None" by (simp add: sample_world_def)
  have b: "run script 5 ?w = [Print MissingApiKey, Exit 1]" for script
    using missing_api_key_exits_first [of ?w script 5] a by simp
  have c: "Call (AudioSpeechCreate (str ''tts-1'') (str ''alloy'') (str ''Hello.'')) \<in>
      set (run TextToSpeechFile 5 ?v)"
    by (simp add: main_eval chunker_eval)
  from missing_api_key_exits_first [where w = ?v and script = TextToSpeechFile and fuel = 5
      and request = "AudioSpeechCreate (str ''tts-1'') (str ''alloy'') (str ''Hello.'')"] c
  have d: "\<exists>key. api_key ?v = Some key \<and> key \<noteq> []" by blast
  from a b c d show ?thesis by simp
qed

text \<open>
  C10, as stated, fails: the text below ends with the delimiter and its only chunk is
  too full for the empty last sentence, so \<open>split_text\<close> returns a last chunk that is
  empty; but \<open>main\<close>, run on a file with this text, strips the text before it calls
  \<open>split_text\<close> and submits one chunk, which is not empty.
\<close>

theorem empty_chunk_submitted_counterexample:
  "split_text (replicate 4094 97 @ [dot, space]) 4096 = [replicate 4094 97 @ [dot], []] \<and>
   submitted (text_to_speech_file_main
      (sample_world (Some (str ''sk-test'')) (replicate 4094 97 @ [dot, space]) sample_service)) =
     [replicate 4094 97 @ [dot]] \<and>
   [] \<notin> set (submitted (text_to_speech_file_main
      (sample_world (Some (str ''sk-test'')) (replicate 4094 97 @ [dot, space]) sample_service)))"
proof -
  let ?A = "replicate 4094 (97::nat)"
  have pa: "?A \<noteq> []" "\<forall>c\<in>set ?A. \<not> is_space c \<and> c \<noteq> dot"
    by (simp_all add: is_space_def dot_def)
  have a: "split_text (?A @ [dot, space]) 4096 = [?A @ [dot], []]"
    by (rule split_text_trailing_plain [OF pa]) simp
  have s: "strip (?A @ [dot, space]) = ?A @ [dot]"
    using strip_trimmed_space [OF plain_facts(4) [OF pa]] by simp
  have c: "split_text (?A @ [dot]) 4096 = [?A @ [dot]]"
    using split_text_single [OF sentences_plain(2) [OF pa], of 4096]
    by (simp add: normalize_sentence_plain(2) [OF pa])
  have "text_to_speech_file_main
      (sample_world (Some (str ''sk-test'')) (?A @ [dot, space]) sample_service) =
    [ClientCreated (str ''sk-test''), PathExists (str ''in.txt''), OpenRead (str ''in.txt''),
     Call (AudioSpeechCreate (str ''tts-1'') (str ''alloy'') (?A @ [dot])),
     WriteBytes (str ''speech_output.mp3'') [0], Print Success, Exit 0]"
    by (simp add: main_eval s c str_def)
  with a show ?thesis by simp
qed

text \<open>
  C10, amended. A text that ends with the delimiter, where the current chunk before the
  empty last sentence is too full for it, gets an empty last chunk from \<open>split_text\<close>.
  \<open>main\<close> submits the chunks that \<open>split_text\<close> returns for the stripped text of the
  file, in order and without leaving out an empty one: the inputs of its calls are an
  initial part of that list, and all of it when every call succeeds. The stripped text
  never ends with the delimiter, and its last chunk is never empty.
\<close>

theorem trailing_delimiter_empty_chunk:
  "(chunk_loop max_length (sentences t) ([], []) = (chunks, current) \<and>
    max_length < int (length current) + 1 \<longrightarrow>
      sentences (t @ [dot, space]) = sentences t @ [[]] \<and>
      split_text (t @ [dot, space]) max_length \<noteq> [] \<and>
      last (split_text (t @ [dot, space]) max_length) = []) \<and>
   (read_text w input_file = Inr contents \<and> strip contents \<noteq> [] \<longrightarrow>
      (\<exists>n. submitted (text_to_speech_file_try w input_file output_file voice model) =
         take n (split_text (strip contents) 4096)) \<and>
      ((\<forall>k<length (split_text (strip contents) 4096). \<exists>r.
          respond w k (AudioSpeechCreate model voice (split_text (strip contents) 4096 ! k)) =
            Inr r) \<longrightarrow>
        submitted (text_to_speech_file_try w input_file output_file voice model) =
          split_text (strip contents) 4096) \<and>
      (\<forall>t. strip contents \<noteq> t @ [dot, space]) \<and>
      last (split_text (strip contents) 4096) \<noteq> [])"
proof (intro conjI impI)
  assume "chunk_loop max_length (sentences t) ([], []) = (chunks, current) \<and>
    max_length < int (length current) + 1"
  then have e: "split_text (t @ [dot, space]) max_length =
      (if current \<noteq> [] then chunks @ [strip current] else chunks) @ [[]]"
    using split_text_trailing_empty by blast
  show "sentences (t @ [dot, space]) = sentences t @ [[]]" by (rule sentences_trailing)
  show "split_text (t @ [dot, space]) max_length \<noteq> []" unfolding e by simp
  show "last (split_text (t @ [dot, space]) max_length) = []" unfolding e by simp
next
  assume a: "read_text w input_file = Inr contents \<and> strip contents \<noteq> []"
  then have r: "read_text w input_file = Inr contents" and ne: "strip contents \<noteq> []"
    by simp_all
  let ?chunks = "split_text (strip contents) 4096"
  show "\<exists>n. submitted (text_to_speech_file_try w input_file output_file voice model) =
      take n ?chunks"
    using r ne by (rule submitted_try)
  show "\<forall>t. strip contents \<noteq> t @ [dot, space]"
    using trimmed_no_trailing_space [OF trimmed_strip] by blast
  show "last ?chunks \<noteq> []"
    using split_text_last_nonempty [OF ne strip_last_not_space [OF ne]] by blast
  show "submitted (text_to_speech_file_try w input_file output_file voice model) = ?chunks"
    if ok: "\<forall>k<length ?chunks. \<exists>r.
      respond w k (AudioSpeechCreate model voice (?chunks ! k)) = Inr r"
  proof -
    obtain events result
      where sc: "synthesize_chunks w model voice 0 ?chunks [] = (events, result)"
      by (cases "synthesize_chunks w model voice 0 ?chunks []") blast
    have "submitted (fst (synthesize_chunks w model voice 0 ?chunks [])) = ?chunks"
      using ok by (intro submitted_all_ok) simp
    then have ev: "submitted events = ?chunks" by (simp add: sc)
    obtain events' ending
      where ss: "synthesize_and_save w model voice output_file ?chunks = (events', ending)"
      by (cases "synthesize_and_save w model voice output_file ?chunks") blast
    have "submitted events' = submitted events"
      using ss
      by (auto simp: synthesize_and_save_def sc submitted_append split: sum.splits option.splits)
    moreover have "submitted (text_to_speech_file_try w input_file output_file voice model) =
        submitted events'"
      using r ne
      by (cases ending)
        (simp_all add: text_to_speech_file_try_def text_to_speech_file_body_def Let_def ss
          submitted_finish submitted_append)
    ultimately show ?thesis using ev by simp
  qed
qed

theorem trailing_delimiter_empty_chunk_witness:
  "chunk_loop 4096 (sentences (replicate 4094 97)) ([], []) =
     ([], replicate 4094 97 @ [dot, space]) \<and>
   (4096 :: int) < int (length (replicate 4094 (97::nat) @ [dot, space])) + 1 \<and>
   last (split_text (replicate 4094 97 @ [dot, space]) 4096) = [] \<and>
   read_text (sample_world (Some (str ''sk-test'')) (str ''One. '') sample_service)
     (str ''in.txt'') = Inr (str ''One. '') \<and>
   strip (str ''One. '') = str ''One.'' \<and>
   submitted (text_to_speech_file_try
      (sample_world (Some (str ''sk-test'')) (str ''One. '') sample_service)
      (str ''in.txt'') (str ''out.mp3'') (str ''alloy'') (str ''tts-1'')) = [str ''One.'']"
proof -
  let ?A = "replicate 4094 (97::nat)"
  let ?w = "sample_world (Some (str ''sk-test'')) (str ''One. '') sample_service"
  have pa: "?A \<noteq> []" "\<forall>c\<in>set ?A. \<not> is_space c \<and> c \<noteq> dot"
    by (simp_all add: is_space_def dot_def)
  have a: "chunk_loop 4096 (sentences ?A) ([], []) = ([], ?A @ [dot, space])"
    by (simp add: sentences_plain(1) [OF pa] normalize_sentence_plain(1) [OF pa])
  have b: "(4096 :: int) < int (length (?A @ [dot, space])) + 1" by simp
  have r: "read_text ?w (str ''in.txt'') = Inr (str ''One. '')" by (simp add: sample_world_def)
  have s: "strip (str ''One. '') = str ''One.''" by (simp add: chunker_eval)
  then have ne: "strip (str ''One. '') \<noteq> []" by (simp add: str_def)
  have c: "split_text (strip (str ''One. '')) 4096 = [str ''One.'']"
    unfolding s by (simp add: chunker_eval)
  have ok: "\<forall>k<length (split_text (strip (str ''One. '')) 4096). \<exists>r.
      respond ?w k (AudioSpeechCreate (str ''tts-1'') (str ''alloy'')
        (split_text (strip (str ''One. '')) 4096 ! k)) = Inr r"
    unfolding c by (simp add: sample_world_def sample_service_def)
  note t = trailing_delimiter_empty_chunk [of 4096 ?A "[]" "?A @ [dot, space]" ?w
      "str ''in.txt''" "str ''One. ''" "str ''out.mp3''" "str ''alloy''" "str ''tts-1''"]
  from t a b have l: "last (split_text (?A @ [dot, space]) 4096) = []" by blast
  from t r ne ok have "submitted (text_to_speech_file_try ?w (str ''in.txt'') (str ''out.mp3'')
      (str ''alloy'') (str ''tts-1'')) = split_text (strip (str ''One. '')) 4096" by blast
  with c a b l r s show ?thesis by simp
qed

text \<open>
  An empty chunk does reach the service from \<open>main\<close> when an empty sentence inside the
  text begins a chunk that the next sentence does not fit: here the first sentence fills
  its chunk and the third one has 4096 characters.
\<close>

theorem inner_empty_sentence_empty_chunk:
  "submitted (text_to_speech_file_main
      (sample_world (Some (str ''sk-test''))
         (replicate 4094 97 @ dot # space # dot # space # replicate 4095 98) sample_service)) =
     [replicate 4094 97 @ [dot], [], replicate 4095 98 @ [dot]]"
proof -
  let ?A = "replicate 4094 (97::nat)" and ?B = "replicate 4095 (98::nat)"
  let ?C = "?A @ dot # space # dot # space # ?B"
  have pa: "?A \<noteq> []" "\<forall>c\<in>set ?A. \<not> is_space c \<and> c \<noteq> dot"
    by (simp_all add: is_space_def dot_def)
  have pb: "?B \<noteq> []" "\<forall>c\<in>set ?B. \<not> is_space c \<and> c \<noteq> dot"
    by (simp_all add: is_space_def dot_def)
  have s: "strip ?C = ?C" by (rule strip_trimmed [OF trimmed_two_plain(2) [OF pa pb]])
  have c: "split_text ?C 4096 = [?A @ [dot], [], ?B @ [dot]]"
    by (rule split_text_inner_empty_plain [OF pa pb]) simp_all
  have "text_to_speech_file_main (sample_world (Some (str ''sk-test'')) ?C sample_service) =
    [ClientCreated (str ''sk-test''), PathExists (str ''in.txt''), OpenRead (str ''in.txt''),
     Call (AudioSpeechCreate (str ''tts-1'') (str ''alloy'') (?A @ [dot])),
     Call (AudioSpeechCreate (str ''tts-1'') (str ''alloy'') []),
     Call (AudioSpeechCreate (str ''tts-1'') (str ''alloy'') (?B @ [dot])),
     WriteBytes (str ''speech_output.mp3'') [0, 1, 2], Print Success, Exit 0]"
    by (simp add: main_eval s c str_def)
  then show ?thesis by simp
qed

end
